theory Spec2Isabelle
  imports Complex_Main "HOL-Library.Char_ord" "HOL-Library.List_Lexorder"
begin

section \<open>HistoryStore: src/hooks/useHistoryState.ts\<close>

text \<open>
  The hook keeps two pieces of React state, \<open>history\<close> (an array of snapshots) and
  \<open>currentIndex\<close>. Every callback is modelled as a function from the state of the
  render it was created in to the state of the next render. The hook is generic in the
  snapshot type \<open>T\<close>; the platform function \<open>JSON.stringify\<close> it compares snapshots
  with is a parameter of \<open>setState\<close>.
\<close>

record 'a history_state =
  history :: "'a list"
  currentIndex :: nat

definition MAX_HISTORY_SIZE :: nat where
  "MAX_HISTORY_SIZE = 11"

text \<open>The argument of \<open>setState\<close>: a value, or a function of the previous state
  (\<open>typeof newStateOrFn === 'function'\<close>).\<close>

datatype 'a state_arg = Direct 'a | Updater "'a \<Rightarrow> 'a"

definition useHistoryState :: "'a \<Rightarrow> 'a history_state" where
  "useHistoryState initialState = \<lparr>history = [initialState], currentIndex = 0\<rparr>"

definition currentState :: "'a history_state \<Rightarrow> 'a" where
  "currentState h = history h ! currentIndex h"

definition canUndo :: "'a history_state \<Rightarrow> bool" where
  "canUndo h = (currentIndex h > 0)"

definition canRedo :: "'a history_state \<Rightarrow> bool" where
  "canRedo h = (int (currentIndex h) < int (length (history h)) - 1)"

definition setState :: "('a \<Rightarrow> string) \<Rightarrow> 'a state_arg \<Rightarrow> 'a history_state \<Rightarrow> 'a history_state" where
  "setState JSON_stringify newStateOrFn h =
     (let newState = (case newStateOrFn of
                        Updater f \<Rightarrow> f (currentState h)
                      | Direct v \<Rightarrow> v)
      in if JSON_stringify (currentState h) = JSON_stringify newState then h
         else
           let newHistory = take (currentIndex h + 1) (history h) @ [newState];
               slicedHistory =
                 (if length newHistory > MAX_HISTORY_SIZE
                  then drop (length newHistory - MAX_HISTORY_SIZE) newHistory
                  else newHistory)
           in \<lparr>history = slicedHistory, currentIndex = length slicedHistory - 1\<rparr>)"

definition resetState :: "'a \<Rightarrow> 'a history_state \<Rightarrow> 'a history_state" where
  "resetState newState h = \<lparr>history = [newState], currentIndex = 0\<rparr>"

definition undo :: "'a history_state \<Rightarrow> 'a history_state" where
  "undo h = (if canUndo h then h\<lparr>currentIndex := currentIndex h - 1\<rparr> else h)"

definition redo :: "'a history_state \<Rightarrow> 'a history_state" where
  "redo h = (if canRedo h then h\<lparr>currentIndex := currentIndex h + 1\<rparr> else h)"

text \<open>The operations a caller can issue after the hook is mounted, and a run of them.\<close>

datatype 'a history_op = Set "'a state_arg" | Undo | Redo | Reset 'a

fun apply_op :: "('a \<Rightarrow> string) \<Rightarrow> 'a history_state \<Rightarrow> 'a history_op \<Rightarrow> 'a history_state" where
  "apply_op js h (Set a) = setState js a h"
| "apply_op js h Undo = undo h"
| "apply_op js h Redo = redo h"
| "apply_op js h (Reset v) = resetState v h"

definition run_ops :: "('a \<Rightarrow> string) \<Rightarrow> 'a \<Rightarrow> 'a history_op list \<Rightarrow> 'a history_state" where
  "run_ops js initialState ops = foldl (apply_op js) (useHistoryState initialState) ops"

text \<open>The invariant of the data model: between 1 and 11 snapshots, cursor in range.\<close>

definition valid_history :: "'a history_state \<Rightarrow> bool" where
  "valid_history h =
     (1 \<le> length (history h) \<and> length (history h) \<le> MAX_HISTORY_SIZE \<and>
      currentIndex h < length (history h))"

text \<open>\<open>keep_last n xs\<close> is \<open>xs.slice(xs.length - n)\<close> for a list that may be shorter
  than \<open>n\<close>; \<open>at_end\<close> says that the cursor is on the newest snapshot.\<close>

definition keep_last :: "nat \<Rightarrow> 'a list \<Rightarrow> 'a list" where
  "keep_last n xs = drop (length xs - n) xs"

definition at_end :: "'a history_state \<Rightarrow> bool" where
  "at_end h = (history h \<noteq> [] \<and> currentIndex h = length (history h) - 1)"

text \<open>The candidate that \<open>setState\<close> computes from its argument and the current
  snapshot, and the candidates of a run of \<open>setState\<close> calls that each take effect.\<close>

definition candidate :: "'a state_arg \<Rightarrow> 'a \<Rightarrow> 'a" where
  "candidate newStateOrFn cur = (case newStateOrFn of Updater f \<Rightarrow> f cur | Direct v \<Rightarrow> v)"

fun candidates :: "'a \<Rightarrow> 'a state_arg list \<Rightarrow> 'a list" where
  "candidates cur [] = []"
| "candidates cur (a # as) = candidate a cur # candidates (candidate a cur) as"

subsection \<open>Invariant and undo/redo lemmas\<close>

lemma valid_useHistoryState: "valid_history (useHistoryState v)"
  by (simp add: valid_history_def useHistoryState_def MAX_HISTORY_SIZE_def)

lemma valid_resetState: "valid_history (resetState v h)"
  by (simp add: valid_history_def resetState_def MAX_HISTORY_SIZE_def)

lemma valid_undo: "valid_history h \<Longrightarrow> valid_history (undo h)"
  by (auto simp: valid_history_def undo_def canUndo_def)

lemma valid_redo: "valid_history h \<Longrightarrow> valid_history (redo h)"
  by (auto simp: valid_history_def redo_def canRedo_def)

lemma valid_setState: "valid_history h \<Longrightarrow> valid_history (setState js a h)"
  by (auto simp: valid_history_def setState_def Let_def MAX_HISTORY_SIZE_def min_def)

lemma valid_apply_op: "valid_history h \<Longrightarrow> valid_history (apply_op js h op)"
  by (cases op) (simp_all add: valid_setState valid_undo valid_redo valid_resetState)

lemma valid_foldl: "valid_history h \<Longrightarrow> valid_history (foldl (apply_op js) h ops)"
  by (induction ops arbitrary: h) (simp_all add: valid_apply_op)

lemma valid_run_ops: "valid_history (run_ops js v ops)"
  unfolding run_ops_def by (rule valid_foldl) (rule valid_useHistoryState)

lemma undo_history: "history (undo h) = history h"
  by (simp add: undo_def)

lemma redo_history: "history (redo h) = history h"
  by (simp add: redo_def)

lemma redo_undo: "valid_history h \<Longrightarrow> canUndo h \<Longrightarrow> redo (undo h) = h"
  by (simp add: valid_history_def undo_def redo_def canUndo_def canRedo_def)

lemma undo_redo: "canRedo h \<Longrightarrow> undo (redo h) = h"
  by (simp add: undo_def redo_def canUndo_def canRedo_def)

lemma slice_keep_last:
  "(if length xs > MAX_HISTORY_SIZE then drop (length xs - MAX_HISTORY_SIZE) xs else xs) = keep_last 11 xs"
  by (simp add: keep_last_def MAX_HISTORY_SIZE_def)

lemma setState_changed:
  "js (currentState h) \<noteq> js v \<Longrightarrow>
   setState js (Direct v) h =
     \<lparr>history = keep_last 11 (take (currentIndex h + 1) (history h) @ [v]),
      currentIndex = length (keep_last 11 (take (currentIndex h + 1) (history h) @ [v])) - 1\<rparr>"
  unfolding setState_def Let_def slice_keep_last by simp

lemma keep_last_snoc:
  "keep_last 11 (keep_last 11 xs @ [v]) = keep_last 11 (xs @ [v])"
proof (cases "length xs < 11")
  case True
  then show ?thesis by (simp add: keep_last_def)
next
  case False
  then have "Suc (length xs - 11) = length xs - 10" by arith
  with False show ?thesis by (simp add: keep_last_def)
qed

lemma keep_last_nonempty: "xs \<noteq> [] \<Longrightarrow> keep_last 11 xs \<noteq> []"
  by (cases xs) (auto simp: keep_last_def)

lemma last_keep_last: "xs \<noteq> [] \<Longrightarrow> last (keep_last 11 xs) = last xs"
  by (cases xs rule: rev_cases) (auto simp: keep_last_def)

lemma setState_at_end:
  assumes "at_end h" "js (last (history h)) \<noteq> js v"
  shows "setState js (Direct v) h =
     \<lparr>history = keep_last 11 (history h @ [v]),
      currentIndex = length (keep_last 11 (history h @ [v])) - 1\<rparr>"
proof -
  from assms(1) have c: "currentState h = last (history h)"
    by (simp add: at_end_def currentState_def last_conv_nth)
  from assms(1) have t: "take (currentIndex h + 1) (history h) = history h"
    by (simp add: at_end_def)
  show ?thesis using setState_changed[of js h v] assms(2) c t by simp
qed

lemma keep_last_append:
  "keep_last n (keep_last n xs @ ys) = keep_last n (xs @ ys)"
proof (cases "n \<le> length xs")
  case True
  then have "length xs + length ys - (length xs - n + n) + (length xs - n) = length xs + length ys - n"
    by arith
  with True show ?thesis by (simp add: keep_last_def)
next
  case False
  then show ?thesis by (simp add: keep_last_def)
qed

lemma length_keep_last: "length (keep_last n xs) = min n (length xs)"
  by (simp add: keep_last_def)

lemma undo_funpow:
  "k \<le> currentIndex h \<Longrightarrow> (undo ^^ k) h = h\<lparr>currentIndex := currentIndex h - k\<rparr>"
proof (induction k)
  case 0
  then show ?case by simp
next
  case (Suc k)
  then show ?case by (simp add: undo_def canUndo_def)
qed

lemma setState_same_text:
  "js (currentState h) = js v \<Longrightarrow> setState js (Direct v) h = h"
  by (simp add: setState_def)

lemma setState_current:
  "currentState (setState js (Direct v) h) = v \<or> js (currentState h) = js v"
proof (cases "js (currentState h) = js v")
  case True
  then show ?thesis by simp
next
  case False
  let ?xs = "take (currentIndex h + 1) (history h) @ [v]"
  have ne: "keep_last 11 ?xs \<noteq> []" by (rule keep_last_nonempty) simp
  have "keep_last 11 ?xs ! (length (keep_last 11 ?xs) - 1) = last (keep_last 11 ?xs)"
    using ne by (simp add: last_conv_nth)
  also have "\<dots> = v" by (simp add: last_keep_last)
  finally show ?thesis
    using setState_changed[OF False] by (simp add: currentState_def)
qed

lemma setState_twice:
  "setState js (Direct v) (setState js (Direct v) h) = setState js (Direct v) h"
proof (cases "js (currentState h) = js v")
  case True
  then show ?thesis by (simp add: setState_same_text)
next
  case False
  with setState_current[of js v h] have "currentState (setState js (Direct v) h) = v" by simp
  then show ?thesis by (simp add: setState_same_text)
qed

lemma setState_candidate:
  "setState js a h = setState js (Direct (candidate a (currentState h))) h"
  by (cases a) (simp_all add: setState_def candidate_def)

lemma length_candidates: "length (candidates cur as) = length as"
  by (induction as arbitrary: cur) simp_all

lemma set_args_history:
  "at_end h \<Longrightarrow> length (history h) \<le> 11 \<Longrightarrow>
   distinct_adj (map js (last (history h) # candidates (last (history h)) as)) \<Longrightarrow>
   at_end (foldl (apply_op js) h (map Set as)) \<and>
   history (foldl (apply_op js) h (map Set as))
     = keep_last 11 (history h @ candidates (last (history h)) as)"
proof (induction as arbitrary: h)
  case Nil
  then show ?case by (simp add: keep_last_def)
next
  case (Cons a as)
  let ?c = "candidate a (last (history h))"
  let ?h' = "setState js a h"
  from Cons.prems(1) have cur: "currentState h = last (history h)"
    by (simp add: at_end_def currentState_def last_conv_nth)
  from Cons.prems(3) have ne: "js (last (history h)) \<noteq> js ?c" by simp
  have h': "?h' = \<lparr>history = keep_last 11 (history h @ [?c]),
      currentIndex = length (keep_last 11 (history h @ [?c])) - 1\<rparr>"
    using setState_at_end[OF Cons.prems(1) ne] setState_candidate[of js a h] cur by simp
  have ae: "at_end ?h'"
    unfolding h' by (simp add: at_end_def keep_last_nonempty)
  have le: "length (history ?h') \<le> 11"
    unfolding h' by (simp add: length_keep_last)
  have la: "last (history ?h') = ?c"
    unfolding h' by (simp add: last_keep_last)
  from Cons.prems(3) have da: "distinct_adj (map js (last (history ?h') # candidates (last (history ?h')) as))"
    unfolding la by simp
  from Cons.IH[OF ae le da]
  have 1: "at_end (foldl (apply_op js) ?h' (map Set as))"
   and 2: "history (foldl (apply_op js) ?h' (map Set as))
     = keep_last 11 (history ?h' @ candidates ?c as)" unfolding la by auto
  have "keep_last 11 (history ?h' @ candidates ?c as)
      = keep_last 11 (history h @ candidates (last (history h)) (a # as))"
    unfolding h' using keep_last_append[of 11 "history h @ [?c]" "candidates ?c as"] by simp
  with 1 2 show ?case by simp
qed

lemma evicted_after_set_args:
  assumes d: "distinct_adj (map js (v0 # candidates v0 as))" and l: "10 < length as"
  shows "(undo ^^ 10) (run_ops js v0 (map Set as))
          = \<lparr>history = drop (length as - 10) (v0 # candidates v0 as), currentIndex = 0\<rparr>"
    and "currentState ((undo ^^ 10) (run_ops js v0 (map Set as)))
          = candidates v0 as ! (length as - 11)"
    and "v0 \<notin> set (candidates v0 as) \<Longrightarrow>
          v0 \<notin> set (drop (length as - 10) (v0 # candidates v0 as))"
proof -
  let ?h = "run_ops js v0 (map Set as)" and ?vs = "candidates v0 as"
  have lv: "length ?vs = length as" by (rule length_candidates)
  have ae0: "at_end (useHistoryState v0)" by (simp add: at_end_def useHistoryState_def)
  have da: "distinct_adj (map js (last (history (useHistoryState v0))
              # candidates (last (history (useHistoryState v0))) as))"
    using d by (simp add: useHistoryState_def)
  from set_args_history[OF ae0 _ da]
  have ae: "at_end ?h" and hh: "history ?h = keep_last 11 (v0 # ?vs)"
    by (simp_all add: run_ops_def useHistoryState_def)
  from l have hh': "history ?h = drop (length as - 10) (v0 # ?vs)"
    unfolding hh keep_last_def by (simp add: Suc_diff_le lv)
  from ae l have ci: "currentIndex ?h = 10"
    unfolding at_end_def hh' by (simp add: lv)
  have hrec: "?h = \<lparr>history = drop (length as - 10) (v0 # ?vs), currentIndex = 10\<rparr>"
    using hh' ci by (cases ?h) simp
  show 1: "(undo ^^ 10) ?h = \<lparr>history = drop (length as - 10) (v0 # ?vs), currentIndex = 0\<rparr>"
    using undo_funpow[of 10 ?h] ci hrec by simp
  from l have e: "length as - 10 = Suc (length as - 11)" by arith
  have dd: "drop (length as - 10) (v0 # ?vs) = drop (length as - 11) ?vs"
    unfolding e by simp
  from l have "drop (length as - 11) ?vs ! 0 = ?vs ! (length as - 11)"
    by (simp add: lv)
  then show "currentState ((undo ^^ 10) ?h) = ?vs ! (length as - 11)"
    unfolding 1 by (simp add: currentState_def dd)
  show "v0 \<notin> set ?vs \<Longrightarrow> v0 \<notin> set (drop (length as - 10) (v0 # ?vs))"
    unfolding dd by (auto dest: in_set_dropD)
qed

subsection \<open>Claims about the history store\<close>

text \<open>
  Claim C2. After any sequence of set/undo/redo/reset operations on a freshly mounted
  store, the snapshot sequence has between 1 and 11 entries and the cursor is a valid
  index into it (\<open>valid_history\<close>). A set, by value or by derivation function, whose
  candidate has a JSON text different from the current snapshot's truncates the
  timeline to the cursor, appends the candidate and keeps the newest 11 entries, with
  the cursor on the last one. After more than 10 sets, each candidate differing from
  the one before, ten undos stop at cursor 0 on the earliest retained snapshot, which
  is the 11th newest candidate and not the initial snapshot: the initial snapshot has
  been evicted (and its value is gone from the timeline unless it was set again).
\<close>

theorem history_bounded_and_evicting:
  "valid_history (run_ops js v0 ops) \<and>
   (js (currentState h) \<noteq> js (candidate a (currentState h)) \<longrightarrow>
      history (setState js a h)
        = keep_last 11 (take (currentIndex h + 1) (history h) @ [candidate a (currentState h)]) \<and>
      currentIndex (setState js a h) = length (history (setState js a h)) - 1) \<and>
   (distinct_adj (map js (v0 # candidates v0 as)) \<and> 10 < length as \<longrightarrow>
      (undo ^^ 10) (run_ops js v0 (map Set as))
        = \<lparr>history = drop (length as - 10) (v0 # candidates v0 as), currentIndex = 0\<rparr> \<and>
      currentState ((undo ^^ 10) (run_ops js v0 (map Set as)))
        = candidates v0 as ! (length as - 11) \<and>
      (v0 \<notin> set (candidates v0 as) \<longrightarrow>
         v0 \<notin> set (history ((undo ^^ 10) (run_ops js v0 (map Set as))))))"
proof (intro conjI impI)
  show "valid_history (run_ops js v0 ops)" by (rule valid_run_ops)
next
  assume "js (currentState h) \<noteq> js (candidate a (currentState h))"
  from setState_changed[OF this] setState_candidate[of js a h]
  show "history (setState js a h)
        = keep_last 11 (take (currentIndex h + 1) (history h) @ [candidate a (currentState h)])"
   and "currentIndex (setState js a h) = length (history (setState js a h)) - 1"
    by simp_all
next
  assume a: "distinct_adj (map js (v0 # candidates v0 as)) \<and> 10 < length as"
  then show 1: "(undo ^^ 10) (run_ops js v0 (map Set as))
        = \<lparr>history = drop (length as - 10) (v0 # candidates v0 as), currentIndex = 0\<rparr>"
    using evicted_after_set_args(1)[of js v0 as] by simp
  from a show "currentState ((undo ^^ 10) (run_ops js v0 (map Set as)))
        = candidates v0 as ! (length as - 11)"
    using evicted_after_set_args(2)[of js v0 as] by simp
  assume "v0 \<notin> set (candidates v0 as)"
  with a show "v0 \<notin> set (history ((undo ^^ 10) (run_ops js v0 (map Set as))))"
    unfolding 1 using evicted_after_set_args(3)[of js v0 as] by simp
qed

text \<open>Witness for C2: a mixed run, one set by derivation function on a fresh store, and
  twelve sets, by value and by function in turn, followed by ten undos, which land on
  the second candidate.\<close>

theorem history_bounded_and_evicting_witness:
  "valid_history (run_ops (\<lambda>s. s) ''s0''
      [Set (Direct ''s1''), Undo, Set (Updater (\<lambda>s. s @ ''x'')), Redo, Reset ''r'']) \<and>
   (\<lambda>s. s) (currentState (useHistoryState ''s0''))
     \<noteq> (\<lambda>s. s) (candidate (Updater (\<lambda>s. s @ ''x'')) (currentState (useHistoryState ''s0''))) \<and>
   history (setState (\<lambda>s. s) (Updater (\<lambda>s. s @ ''x'')) (useHistoryState ''s0'')) = [''s0'', ''s0x''] \<and>
   currentIndex (setState (\<lambda>s. s) (Updater (\<lambda>s. s @ ''x'')) (useHistoryState ''s0'')) = 1 \<and>
   candidates ''s0''
      [Direct ''a'', Updater (\<lambda>s. s @ ''x''), Direct ''b'', Updater (\<lambda>s. s @ ''x''),
       Direct ''c'', Updater (\<lambda>s. s @ ''x''), Direct ''d'', Updater (\<lambda>s. s @ ''x''),
       Direct ''e'', Updater (\<lambda>s. s @ ''x''), Direct ''f'', Updater (\<lambda>s. s @ ''x'')]
     = [''a'', ''ax'', ''b'', ''bx'', ''c'', ''cx'', ''d'', ''dx'', ''e'', ''ex'', ''f'', ''fx''] \<and>
   (undo ^^ 10) (run_ops (\<lambda>s. s) ''s0'' (map Set
      [Direct ''a'', Updater (\<lambda>s. s @ ''x''), Direct ''b'', Updater (\<lambda>s. s @ ''x''),
       Direct ''c'', Updater (\<lambda>s. s @ ''x''), Direct ''d'', Updater (\<lambda>s. s @ ''x''),
       Direct ''e'', Updater (\<lambda>s. s @ ''x''), Direct ''f'', Updater (\<lambda>s. s @ ''x'')]))
     = \<lparr>history = [''ax'', ''b'', ''bx'', ''c'', ''cx'', ''d'', ''dx'', ''e'', ''ex'', ''f'', ''fx''],
        currentIndex = 0\<rparr> \<and>
   currentState ((undo ^^ 10) (run_ops (\<lambda>s. s) ''s0'' (map Set
      [Direct ''a'', Updater (\<lambda>s. s @ ''x''), Direct ''b'', Updater (\<lambda>s. s @ ''x''),
       Direct ''c'', Updater (\<lambda>s. s @ ''x''), Direct ''d'', Updater (\<lambda>s. s @ ''x''),
       Direct ''e'', Updater (\<lambda>s. s @ ''x''), Direct ''f'', Updater (\<lambda>s. s @ ''x'')])))
     = ''ax''"
proof -
  let ?as = "[Direct ''a'', Updater (\<lambda>s. s @ ''x''), Direct ''b'', Updater (\<lambda>s. s @ ''x''),
       Direct ''c'', Updater (\<lambda>s. s @ ''x''), Direct ''d'', Updater (\<lambda>s. s @ ''x''),
       Direct ''e'', Updater (\<lambda>s. s @ ''x''), Direct ''f'', Updater (\<lambda>s. s @ ''x'')]"
  have c: "candidates ''s0'' ?as
     = [''a'', ''ax'', ''b'', ''bx'', ''c'', ''cx'', ''d'', ''dx'', ''e'', ''ex'', ''f'', ''fx'']"
    by (simp add: candidate_def)
  have d: "distinct_adj (map (\<lambda>s. s) (''s0'' # candidates ''s0'' ?as))"
    unfolding c by simp
  from history_bounded_and_evicting[of "\<lambda>s. s" "''s0''"
      "[Set (Direct ''s1''), Undo, Set (Updater (\<lambda>s. s @ ''x'')), Redo, Reset ''r'']"
      "useHistoryState ''s0''" "Updater (\<lambda>s. s @ ''x'')" ?as] d
  show ?thesis
    unfolding c by (simp add: useHistoryState_def currentState_def keep_last_def candidate_def)
qed

text \<open>
  Claim C10. In every state the store can reach (and in every state satisfying the
  invariant), undo followed by redo restores the state when canUndo holds, redo
  followed by undo restores it when canRedo holds, and neither changes the snapshot
  sequence.
\<close>

theorem undo_redo_inverse:
  "(canUndo (run_ops js v0 ops) \<longrightarrow> redo (undo (run_ops js v0 ops)) = run_ops js v0 ops) \<and>
   (valid_history h \<and> canUndo h \<longrightarrow> redo (undo h) = h) \<and>
   (canRedo h \<longrightarrow> undo (redo h) = h) \<and>
   history (undo h) = history h \<and> history (redo h) = history h"
  using redo_undo[OF valid_run_ops, of js v0 ops] redo_undo[of h] undo_redo[of h]
  by (simp add: undo_history redo_history)

text \<open>Witness for C10: the store after two sets and one undo.\<close>

theorem undo_redo_inverse_witness:
  "canUndo (run_ops (\<lambda>s. s) ''a'' [Set (Direct ''b''), Set (Direct ''c''), Undo]) \<and>
   redo (undo (run_ops (\<lambda>s. s) ''a'' [Set (Direct ''b''), Set (Direct ''c''), Undo]))
     = \<lparr>history = [''a'', ''b'', ''c''], currentIndex = 1\<rparr> \<and>
   valid_history \<lparr>history = [''a'', ''b'', ''c''], currentIndex = 1\<rparr> \<and>
   canUndo \<lparr>history = [''a'', ''b'', ''c''], currentIndex = 1\<rparr> \<and>
   canRedo \<lparr>history = [''a'', ''b'', ''c''], currentIndex = 1\<rparr> \<and>
   undo (redo \<lparr>history = [''a'', ''b'', ''c''], currentIndex = 1\<rparr>)
     = \<lparr>history = [''a'', ''b'', ''c''], currentIndex = 1\<rparr>"
  using undo_redo_inverse[of "\<lambda>s. s" "''a''" "[Set (Direct ''b''), Set (Direct ''c''), Undo]"
      "\<lparr>history = [''a'', ''b'', ''c''], currentIndex = 1\<rparr>"]
  by (simp add: run_ops_def useHistoryState_def setState_def currentState_def Let_def
      MAX_HISTORY_SIZE_def undo_def redo_def canUndo_def canRedo_def valid_history_def)


section \<open>GraphMutator: handleSaveTags in src/components/InteractiveGridView.tsx\<close>

text \<open>
  The graph types of \<open>src/types.ts\<close>. Optional fields are options. Strings are lists of
  code units below 256. A scalar is a string or a finite number, read as a real.
\<close>

datatype scalar = Num real | Str string

datatype NodeType =
  Spreadsheet | Sheet | Table | Cell | Formula | Analysis | Tag | Row | Column

record Node =
  node_id :: string
  node_type :: NodeType
  node_label :: string
  description :: "string option"
  tags :: "string list option"
  formula :: "string option"
  node_value :: "scalar option"
  address :: "string option"

record Link =
  link_id :: string
  source :: string
  target :: string
  link_label :: string

record KnowledgeGraph =
  nodes :: "Node list"
  links :: "Link list"

text \<open>\<open>String.prototype.toLowerCase\<close> and the regular expression class \<open>\s\<close>, on
  code units below 256.\<close>

definition toLowerCase_char :: "char \<Rightarrow> char" where
  "toLowerCase_char c =
     (let n = (of_char c :: nat)
      in if (65 \<le> n \<and> n \<le> 90) \<or> (192 \<le> n \<and> n \<le> 222 \<and> n \<noteq> 215)
         then char_of (n + 32) else c)"

definition toLowerCase :: "string \<Rightarrow> string" where
  "toLowerCase s = map toLowerCase_char s"

definition is_whitespace :: "char \<Rightarrow> bool" where
  "is_whitespace c = ((of_char c :: nat) \<in> {9, 10, 11, 12, 13, 32, 160})"

text \<open>\<open>s.replace(/\s/g, '_')\<close>\<close>

definition replace_whitespace :: "string \<Rightarrow> string" where
  "replace_whitespace s = map (\<lambda>c. if is_whitespace c then CHR ''_'' else c) s"

text \<open>\<open>`tag_${tagLabel.toLowerCase().replace(/\s/g, '_')}`\<close>\<close>

definition tag_id :: "string \<Rightarrow> string" where
  "tag_id tagLabel = ''tag_'' @ replace_whitespace (toLowerCase tagLabel)"

definition new_tag_node :: "string \<Rightarrow> Node" where
  "new_tag_node tagLabel =
     \<lparr>node_id = tag_id tagLabel, node_type = Tag, node_label = tagLabel, description = None,
      tags = None, formula = None, node_value = None, address = None\<rparr>"

definition new_tag_link :: "string \<Rightarrow> string \<Rightarrow> Link" where
  "new_tag_link nodeId tagLabel =
     \<lparr>link_id = ''link_'' @ nodeId @ ''_'' @ tag_id tagLabel, source = nodeId,
      target = tag_id tagLabel, link_label = ''HAS_TAG''\<rparr>"

text \<open>\<open>Array.prototype.findIndex\<close>: the position of the first match. The node that
  \<open>handleSaveTags\<close> holds a reference to is tracked by its position in \<open>nodes\<close>.\<close>

fun find_index :: "('a \<Rightarrow> bool) \<Rightarrow> 'a list \<Rightarrow> nat option" where
  "find_index P [] = None"
| "find_index P (x # xs) =
     (if P x then Some 0 else map_option Suc (find_index P xs))"

text \<open>The \<open>tagsToAdd.forEach\<close> loop.\<close>

fun add_tags :: "string \<Rightarrow> string list \<Rightarrow> KnowledgeGraph \<Rightarrow> KnowledgeGraph" where
  "add_tags nodeId [] g = g"
| "add_tags nodeId (tagLabel # rest) g =
     add_tags nodeId rest
       \<lparr>nodes = (case find (\<lambda>n. node_id n = tag_id tagLabel) (nodes g) of
                   None \<Rightarrow> nodes g @ [new_tag_node tagLabel]
                 | Some tagNode \<Rightarrow> nodes g),
        links = links g @ [new_tag_link nodeId tagLabel]\<rparr>"

text \<open>The \<open>tagsToRemove.forEach\<close> loop.\<close>

fun remove_tags :: "string \<Rightarrow> string list \<Rightarrow> KnowledgeGraph \<Rightarrow> KnowledgeGraph" where
  "remove_tags nodeId [] g = g"
| "remove_tags nodeId (tagLabel # rest) g =
     remove_tags nodeId rest
       (g\<lparr>links := filter (\<lambda>l. \<not> (source l = nodeId \<and> target l = tag_id tagLabel)) (links g)\<rparr>)"

text \<open>
  \<open>handleSaveTags(nodeId, newTags)\<close>, with the two values it closes over as arguments:
  the current graph and \<open>tagEditor.node\<close>. The deep copy
  \<open>JSON.parse(JSON.stringify(graph))\<close> is the identity on these values. The result is
  the graph handed to \<open>updateGraph\<close>.
\<close>

definition handleSaveTags :: "KnowledgeGraph \<Rightarrow> Node \<Rightarrow> string \<Rightarrow> string list \<Rightarrow> KnowledgeGraph" where
  "handleSaveTags graph originalNodeFromState nodeId newTags =
     (let (idx, newGraph) =
            (case find_index (\<lambda>n. node_id n = nodeId) (nodes graph) of
               Some i \<Rightarrow> (i, graph)
             | None \<Rightarrow> (length (nodes graph),
                        graph\<lparr>nodes := nodes graph @ [originalNodeFromState\<lparr>tags := Some []\<rparr>]\<rparr>));
          currentTags = (case tags (nodes newGraph ! idx) of None \<Rightarrow> [] | Some ts \<Rightarrow> ts);
          tagsToAdd = filter (\<lambda>t. t \<notin> set currentTags) newTags;
          tagsToRemove = filter (\<lambda>t. t \<notin> set newTags) currentTags;
          g = remove_tags nodeId tagsToRemove (add_tags nodeId tagsToAdd newGraph)
      in g\<lparr>nodes := (nodes g)[idx := (nodes g ! idx)\<lparr>tags := Some newTags\<rparr>]\<rparr>)"

text \<open>Read-side helpers used to state the claims: the owner's denormalized tag list,
  the two difference lists, and the labels of the nodes that the owner's
  \<open>HAS_TAG\<close> links point to.\<close>

definition current_tags :: "KnowledgeGraph \<Rightarrow> string \<Rightarrow> string list" where
  "current_tags g nodeId =
     (case find (\<lambda>n. node_id n = nodeId) (nodes g) of
        None \<Rightarrow> []
      | Some n \<Rightarrow> (case tags n of None \<Rightarrow> [] | Some ts \<Rightarrow> ts))"

definition tags_to_add :: "KnowledgeGraph \<Rightarrow> string \<Rightarrow> string list \<Rightarrow> string list" where
  "tags_to_add g nodeId newTags = filter (\<lambda>t. t \<notin> set (current_tags g nodeId)) newTags"

definition tags_to_remove :: "KnowledgeGraph \<Rightarrow> string \<Rightarrow> string list \<Rightarrow> string list" where
  "tags_to_remove g nodeId newTags = filter (\<lambda>t. t \<notin> set newTags) (current_tags g nodeId)"

definition has_tag_targets :: "KnowledgeGraph \<Rightarrow> string \<Rightarrow> string list" where
  "has_tag_targets g nodeId =
     map target (filter (\<lambda>l. source l = nodeId \<and> link_label l = ''HAS_TAG'') (links g))"

definition linked_tag_labels :: "KnowledgeGraph \<Rightarrow> string \<Rightarrow> string list" where
  "linked_tag_labels g nodeId =
     concat (map (\<lambda>tid. map node_label (filter (\<lambda>n. node_id n = tid) (nodes g)))
                 (has_tag_targets g nodeId))"

text \<open>The position of the owner node after the find-or-push step, and the graph after
  that step.\<close>

definition owner_index :: "KnowledgeGraph \<Rightarrow> string \<Rightarrow> nat" where
  "owner_index g nodeId =
     (case find_index (\<lambda>n. node_id n = nodeId) (nodes g) of
        Some i \<Rightarrow> i
      | None \<Rightarrow> length (nodes g))"

definition with_owner :: "KnowledgeGraph \<Rightarrow> Node \<Rightarrow> string \<Rightarrow> KnowledgeGraph" where
  "with_owner g originalNodeFromState nodeId =
     (case find_index (\<lambda>n. node_id n = nodeId) (nodes g) of
        Some i \<Rightarrow> g
      | None \<Rightarrow> g\<lparr>nodes := nodes g @ [originalNodeFromState\<lparr>tags := Some []\<rparr>]\<rparr>)"

text \<open>Example graphs for the concrete evaluations below: an owner cell tagged \<open>x\<close>,
  the Tag node of \<open>x\<close>, the \<open>HAS_TAG\<close> link between them, and a variant with a second
  link of another kind between the same two nodes.\<close>

definition example_owner :: Node where
  "example_owner =
     \<lparr>node_id = ''cell_Sheet1_A1'', node_type = Cell, node_label = ''Cell A1'',
      description = None, tags = Some [''x''], formula = None, node_value = None,
      address = Some ''A1''\<rparr>"

definition example_graph :: KnowledgeGraph where
  "example_graph =
     \<lparr>nodes = [example_owner, new_tag_node ''x''],
      links = [new_tag_link ''cell_Sheet1_A1'' ''x'']\<rparr>"

definition example_related_link :: Link where
  "example_related_link =
     \<lparr>link_id = ''l1'', source = ''cell_Sheet1_A1'', target = ''tag_x'',
      link_label = ''RELATED_TO''\<rparr>"

definition example_graph_two_links :: KnowledgeGraph where
  "example_graph_two_links =
     \<lparr>nodes = [example_owner, new_tag_node ''x''],
      links = [new_tag_link ''cell_Sheet1_A1'' ''x'', example_related_link]\<rparr>"

text \<open>The same graph with the owner's \<open>tags\<close> field empty although the link exists.\<close>

definition example_graph_stale :: KnowledgeGraph where
  "example_graph_stale =
     \<lparr>nodes = [example_owner\<lparr>tags := Some []\<rparr>, new_tag_node ''x''],
      links = [new_tag_link ''cell_Sheet1_A1'' ''x'']\<rparr>"

subsection \<open>Lemmas about the tag loops\<close>

lemma find_index_None: "find_index P xs = None \<longleftrightarrow> (\<forall>x\<in>set xs. \<not> P x)"
  by (induction xs) auto

lemma find_index_Some:
  "find_index P xs = Some i \<Longrightarrow> i < length xs \<and> P (xs ! i) \<and> (\<forall>j<i. \<not> P (xs ! j))"
proof (induction xs arbitrary: i)
  case Nil
  then show ?case by simp
next
  case (Cons x xs)
  show ?case
  proof (cases "P x")
    case True
    with Cons.prems show ?thesis by simp
  next
    case False
    with Cons.prems obtain k where k: "find_index P xs = Some k" "i = Suc k" by auto
    from Cons.IH[OF k(1)] False k(2) show ?thesis
      by (auto simp: nth_Cons split: nat.splits)
  qed
qed

lemma find_index_first:
  "i < length xs \<Longrightarrow> P (xs ! i) \<Longrightarrow> (\<forall>j<i. \<not> P (xs ! j)) \<Longrightarrow> find_index P xs = Some i"
proof (induction xs arbitrary: i)
  case Nil
  then show ?case by simp
next
  case (Cons x xs)
  show ?case
  proof (cases i)
    case 0
    with Cons.prems show ?thesis by simp
  next
    case (Suc k)
    with Cons.prems have "\<not> P x" by auto
    moreover from Cons.prems Suc have "find_index P xs = Some k"
      by (intro Cons.IH) auto
    ultimately show ?thesis using Suc by simp
  qed
qed

lemma find_index_find:
  "find P xs = (case find_index P xs of None \<Rightarrow> None | Some i \<Rightarrow> Some (xs ! i))"
  by (induction xs) (auto split: option.splits)

lemma find_SomeD: "find P xs = Some a \<Longrightarrow> a \<in> set xs \<and> P a"
  by (induction xs) (auto split: if_splits)

lemma links_add_tags:
  "links (add_tags nid ts g) = links g @ map (new_tag_link nid) ts"
  by (induction ts arbitrary: g) simp_all

lemma nodes_add_tags_prefix:
  "\<exists>ex. nodes (add_tags nid ts g) = nodes g @ ex \<and>
        (\<forall>n\<in>set ex. \<exists>t\<in>set ts. n = new_tag_node t \<and> tag_id t \<notin> node_id ` set (nodes g))"
proof (induction ts arbitrary: g)
  case Nil
  then show ?case by simp
next
  case (Cons t ts)
  let ?g' = "\<lparr>nodes = (case find (\<lambda>n. node_id n = tag_id t) (nodes g) of
                   None \<Rightarrow> nodes g @ [new_tag_node t]
                 | Some tagNode \<Rightarrow> nodes g),
        links = links g @ [new_tag_link nid t]\<rparr>"
  from Cons.IH[of ?g'] obtain ex where ex: "nodes (add_tags nid ts ?g') = nodes ?g' @ ex"
    "\<forall>n\<in>set ex. \<exists>t\<in>set ts. n = new_tag_node t \<and> tag_id t \<notin> node_id ` set (nodes ?g')"
    by blast
  show ?case
  proof (cases "find (\<lambda>n. node_id n = tag_id t) (nodes g)")
    case None
    then have nin: "tag_id t \<notin> node_id ` set (nodes g)"
      by (auto simp: find_None_iff)
    from None ex have "nodes (add_tags nid (t # ts) g) = nodes g @ (new_tag_node t # ex)"
      by simp
    moreover have "\<forall>n\<in>set (new_tag_node t # ex). \<exists>t'\<in>set (t # ts). n = new_tag_node t' \<and> tag_id t' \<notin> node_id ` set (nodes g)"
      using ex(2) nin None by auto
    ultimately show ?thesis by blast
  next
    case (Some a)
    with ex have "nodes (add_tags nid (t # ts) g) = nodes g @ ex" by simp
    moreover have "\<forall>n\<in>set ex. \<exists>t'\<in>set (t # ts). n = new_tag_node t' \<and> tag_id t' \<notin> node_id ` set (nodes g)"
      using ex(2) Some by auto
    ultimately show ?thesis by blast
  qed
qed

lemma node_ids_add_tags:
  "node_id ` set (nodes (add_tags nid ts g)) = node_id ` set (nodes g) \<union> tag_id ` set ts"
proof (induction ts arbitrary: g)
  case Nil
  then show ?case by simp
next
  case (Cons t ts)
  show ?case
  proof (cases "find (\<lambda>n. node_id n = tag_id t) (nodes g)")
    case None
    then show ?thesis by (simp add: Cons.IH new_tag_node_def)
  next
    case (Some a)
    then have "a \<in> set (nodes g)" "node_id a = tag_id t"
      by (auto dest!: find_SomeD)
    then have "tag_id t \<in> node_id ` set (nodes g)"
      by (metis imageI)
    with Some show ?thesis by (auto simp add: Cons.IH)
  qed
qed

lemma nodes_remove_tags: "nodes (remove_tags nid ts g) = nodes g"
  by (induction ts arbitrary: g) simp_all

lemma links_remove_tags:
  "links (remove_tags nid ts g)
     = filter (\<lambda>l. \<not> (source l = nid \<and> target l \<in> tag_id ` set ts)) (links g)"
  by (induction ts arbitrary: g) (auto intro: filter_cong)

subsection \<open>The shape of the result of handleSaveTags\<close>

lemma owner_index_lt: "owner_index g nid < length (nodes (with_owner g e nid))"
  by (auto simp: owner_index_def with_owner_def dest: find_index_Some split: option.splits)

lemma links_with_owner: "links (with_owner g e nid) = links g"
  by (simp add: with_owner_def split: option.splits)

lemma current_tags_with_owner:
  "(case tags (nodes (with_owner g e nid) ! owner_index g nid) of None \<Rightarrow> [] | Some ts \<Rightarrow> ts)
     = current_tags g nid"
  by (simp add: with_owner_def owner_index_def current_tags_def find_index_find
      split: option.splits)

lemma handleSaveTags_aux:
  "handleSaveTags g e nid new =
     (let currentTags = (case tags (nodes (with_owner g e nid) ! owner_index g nid) of
                           None \<Rightarrow> [] | Some ts \<Rightarrow> ts);
          g' = remove_tags nid (filter (\<lambda>t. t \<notin> set new) currentTags)
                 (add_tags nid (filter (\<lambda>t. t \<notin> set currentTags) new) (with_owner g e nid))
      in g'\<lparr>nodes := (nodes g')[owner_index g nid :=
                        (nodes g' ! owner_index g nid)\<lparr>tags := Some new\<rparr>]\<rparr>)"
proof (cases "find_index (\<lambda>n. node_id n = nid) (nodes g)")
  case None
  show ?thesis
    unfolding handleSaveTags_def with_owner_def owner_index_def None option.case prod.case Let_def
    by (rule refl)
next
  case (Some i)
  show ?thesis
    unfolding handleSaveTags_def with_owner_def owner_index_def Some option.case prod.case Let_def
    by (rule refl)
qed

lemma handleSaveTags_eq:
  "handleSaveTags g e nid new =
     (let g' = remove_tags nid (tags_to_remove g nid new)
                 (add_tags nid (tags_to_add g nid new) (with_owner g e nid))
      in g'\<lparr>nodes := (nodes g')[owner_index g nid :=
                        (nodes g' ! owner_index g nid)\<lparr>tags := Some new\<rparr>]\<rparr>)"
  unfolding handleSaveTags_aux[of g e nid new] current_tags_with_owner
    tags_to_add_def tags_to_remove_def Let_def
  by (rule refl)

lemma links_handleSaveTags:
  "links (handleSaveTags g e nid new) =
     filter (\<lambda>l. \<not> (source l = nid \<and> target l \<in> tag_id ` set (tags_to_remove g nid new)))
       (links g @ map (new_tag_link nid) (tags_to_add g nid new))"
  by (simp add: handleSaveTags_eq Let_def links_remove_tags links_add_tags links_with_owner)

lemma nodes_handleSaveTags:
  "\<exists>ex. nodes (handleSaveTags g e nid new) =
          (nodes (with_owner g e nid) @ ex)[owner_index g nid :=
             (nodes (with_owner g e nid) ! owner_index g nid)\<lparr>tags := Some new\<rparr>] \<and>
        (\<forall>n\<in>set ex. \<exists>t\<in>set (tags_to_add g nid new). n = new_tag_node t \<and>
             tag_id t \<notin> node_id ` set (nodes (with_owner g e nid)))"
proof -
  from nodes_add_tags_prefix[of nid "tags_to_add g nid new" "with_owner g e nid"]
  obtain ex where ex: "nodes (add_tags nid (tags_to_add g nid new) (with_owner g e nid))
       = nodes (with_owner g e nid) @ ex"
    "\<forall>n\<in>set ex. \<exists>t\<in>set (tags_to_add g nid new). n = new_tag_node t \<and>
             tag_id t \<notin> node_id ` set (nodes (with_owner g e nid))" by blast
  have "nodes (handleSaveTags g e nid new) =
          (nodes (with_owner g e nid) @ ex)[owner_index g nid :=
             (nodes (with_owner g e nid) ! owner_index g nid)\<lparr>tags := Some new\<rparr>]"
    using owner_index_lt[of g nid e]
    by (simp add: handleSaveTags_eq Let_def nodes_remove_tags ex(1) nth_append)
  with ex(2) show ?thesis by blast
qed

lemma owner_node_id:
  "node_id e = nid \<Longrightarrow> node_id (nodes (with_owner g e nid) ! owner_index g nid) = nid"
  by (auto simp: with_owner_def owner_index_def dest: find_index_Some split: option.splits)

lemma before_owner_index:
  "j < owner_index g nid \<Longrightarrow> node_id (nodes (with_owner g e nid) ! j) \<noteq> nid"
  by (auto simp: with_owner_def owner_index_def find_index_None nth_append
      dest: find_index_Some split: option.splits)

lemma find_index_handleSaveTags:
  assumes "node_id e = nid"
  shows "find_index (\<lambda>n. node_id n = nid) (nodes (handleSaveTags g e nid new))
           = Some (owner_index g nid)"
proof -
  let ?B = "nodes (with_owner g e nid)" and ?i = "owner_index g nid"
  from nodes_handleSaveTags[of g e nid new] obtain ex where
    ex: "nodes (handleSaveTags g e nid new) = (?B @ ex)[?i := (?B ! ?i)\<lparr>tags := Some new\<rparr>]"
    by blast
  have lt: "?i < length ?B" by (rule owner_index_lt)
  show ?thesis
  proof (rule find_index_first)
    show "?i < length (nodes (handleSaveTags g e nid new))" using lt by (simp add: ex)
    show "node_id (nodes (handleSaveTags g e nid new) ! ?i) = nid"
      using lt owner_node_id[OF assms, of g] by (simp add: ex)
    show "\<forall>j<?i. node_id (nodes (handleSaveTags g e nid new) ! j) \<noteq> nid"
      using lt before_owner_index[of _ g nid e] by (simp add: ex nth_append)
  qed
qed

lemma owner_tags_handleSaveTags:
  "tags (nodes (handleSaveTags g e nid new) ! owner_index g nid) = Some new"
proof -
  let ?B = "nodes (with_owner g e nid)" and ?i = "owner_index g nid"
  from nodes_handleSaveTags[of g e nid new] obtain ex where
    ex: "nodes (handleSaveTags g e nid new) = (?B @ ex)[?i := (?B ! ?i)\<lparr>tags := Some new\<rparr>]"
    by blast
  have lt: "?i < length ?B" by (rule owner_index_lt)
  then show ?thesis by (simp add: ex)
qed

lemma handleSaveTags_idem:
  assumes "node_id e = nid"
  shows "handleSaveTags (handleSaveTags g e nid new) e nid new = handleSaveTags g e nid new"
proof -
  let ?r = "handleSaveTags g e nid new" and ?i = "owner_index g nid"
  have fi: "find_index (\<lambda>n. node_id n = nid) (nodes ?r) = Some ?i"
    by (rule find_index_handleSaveTags[OF assms])
  have oi: "owner_index ?r nid = ?i" by (simp add: owner_index_def fi)
  have wo: "with_owner ?r e nid = ?r" by (simp add: with_owner_def fi)
  have ct: "current_tags ?r nid = new"
    by (simp add: current_tags_def find_index_find fi owner_tags_handleSaveTags)
  have ta: "tags_to_add ?r nid new = []" by (simp add: tags_to_add_def ct)
  have tr: "tags_to_remove ?r nid new = []" by (simp add: tags_to_remove_def ct)
  have "(nodes ?r)[?i := (nodes ?r ! ?i)\<lparr>tags := Some new\<rparr>] = nodes ?r"
    using owner_tags_handleSaveTags[of g e nid new]
    by (metis list_update_id Node.surjective Node.update_convs(5))
  then show ?thesis
    by (simp add: handleSaveTags_eq[of ?r] Let_def oi wo ta tr)
qed

subsection \<open>Links and labels after handleSaveTags\<close>

lemma set_linked_tag_labels:
  "set (linked_tag_labels g nid) =
     {node_label n | n tid. tid \<in> set (has_tag_targets g nid) \<and> n \<in> set (nodes g) \<and> node_id n = tid}"
  by (auto simp: linked_tag_labels_def)

lemma set_has_tag_targets:
  "set (has_tag_targets g nid) =
     {target l | l. l \<in> set (links g) \<and> source l = nid \<and> link_label l = ''HAS_TAG''}"
  by (auto simp: has_tag_targets_def)

lemma set_tags_to_add: "set (tags_to_add g nid new) = set new - set (current_tags g nid)"
  by (auto simp: tags_to_add_def)

lemma set_tags_to_remove: "set (tags_to_remove g nid new) = set (current_tags g nid) - set new"
  by (auto simp: tags_to_remove_def)

lemma in_links_handleSaveTags:
  "l \<in> set (links (handleSaveTags g e nid new)) \<longleftrightarrow>
     (l \<in> set (links g) \<or> l \<in> new_tag_link nid ` set (tags_to_add g nid new)) \<and>
     \<not> (source l = nid \<and> target l \<in> tag_id ` set (tags_to_remove g nid new))"
  by (auto simp: links_handleSaveTags)

lemma in_has_tag_targets:
  "l \<in> set (links g) \<Longrightarrow> source l = nid \<Longrightarrow> link_label l = ''HAS_TAG'' \<Longrightarrow>
   target l \<in> set (has_tag_targets g nid)"
  by (auto simp: set_has_tag_targets)

lemma has_tag_targets_handleSaveTags:
  assumes H1: "set (has_tag_targets g nid) = tag_id ` set (current_tags g nid)"
      and H2: "inj_on tag_id (set (current_tags g nid) \<union> set new)"
  shows "set (has_tag_targets (handleSaveTags g e nid new) nid) = tag_id ` set new"
proof (rule set_eqI, rule iffI)
  let ?cur = "current_tags g nid"
  let ?R = "tags_to_remove g nid new" and ?A = "tags_to_add g nid new"
  fix tid
  assume "tid \<in> set (has_tag_targets (handleSaveTags g e nid new) nid)"
  then obtain l where l: "l \<in> set (links g) \<or> l \<in> new_tag_link nid ` set ?A"
      "\<not> (source l = nid \<and> target l \<in> tag_id ` set ?R)"
      "source l = nid" "link_label l = ''HAS_TAG''" "target l = tid"
    by (auto simp: set_has_tag_targets in_links_handleSaveTags)
  from l(1) show "tid \<in> tag_id ` set new"
  proof
    assume "l \<in> set (links g)"
    with l have "tid \<in> set (has_tag_targets g nid)" by (auto simp: set_has_tag_targets)
    with H1 obtain t where t: "t \<in> set ?cur" "tid = tag_id t" by auto
    with l(2,3,5) have "t \<notin> set ?R" by auto
    with t(1) have "t \<in> set new" by (simp add: set_tags_to_remove)
    with t(2) show ?thesis by simp
  next
    assume "l \<in> new_tag_link nid ` set ?A"
    with l(5) show ?thesis by (auto simp: new_tag_link_def set_tags_to_add)
  qed
next
  let ?cur = "current_tags g nid"
  let ?R = "tags_to_remove g nid new" and ?A = "tags_to_add g nid new"
  fix tid
  assume "tid \<in> tag_id ` set new"
  then obtain t where t: "t \<in> set new" "tid = tag_id t" by auto
  have notR: "tag_id t \<notin> tag_id ` set ?R"
  proof
    assume "tag_id t \<in> tag_id ` set ?R"
    then obtain t' where t': "t' \<in> set ?R" "tag_id t = tag_id t'" by auto
    from t' have "t' \<in> set ?cur" "t' \<notin> set new" by (simp_all add: set_tags_to_remove)
    with H2 t(1) t'(2) have "t = t'" by (auto dest: inj_onD)
    with \<open>t' \<notin> set new\<close> t(1) show False by simp
  qed
  show "tid \<in> set (has_tag_targets (handleSaveTags g e nid new) nid)"
  proof (cases "t \<in> set ?cur")
    case True
    with H1 have "tag_id t \<in> set (has_tag_targets g nid)" by simp
    then obtain l where l: "l \<in> set (links g)" "source l = nid"
        "link_label l = ''HAS_TAG''" "target l = tag_id t"
      by (auto simp: set_has_tag_targets)
    from l notR have "l \<in> set (links (handleSaveTags g e nid new))"
      by (simp add: in_links_handleSaveTags)
    from in_has_tag_targets[OF this l(2,3)] l(4) t(2) show ?thesis by simp
  next
    case False
    with t(1) have "t \<in> set ?A" by (simp add: set_tags_to_add)
    with notR have "new_tag_link nid t \<in> set (links (handleSaveTags g e nid new))"
      by (simp add: in_links_handleSaveTags new_tag_link_def)
    from in_has_tag_targets[OF this, of nid] t(2) show ?thesis
      by (simp add: new_tag_link_def)
  qed
qed


lemma idlab_handleSaveTags:
  "map (\<lambda>n. (node_id n, node_label n)) (nodes (handleSaveTags g e nid new))
     = map (\<lambda>n. (node_id n, node_label n))
         (nodes (add_tags nid (tags_to_add g nid new) (with_owner g e nid)))"
proof -
  let ?N = "nodes (add_tags nid (tags_to_add g nid new) (with_owner g e nid))"
  let ?i = "owner_index g nid"
  let ?f = "\<lambda>n. (node_id n, node_label n)"
  from nodes_add_tags_prefix[of nid "tags_to_add g nid new" "with_owner g e nid"]
  obtain ex where "?N = nodes (with_owner g e nid) @ ex" by blast
  with owner_index_lt[of g nid e] have lt: "?i < length ?N" by simp
  have "map ?f (?N[?i := (?N ! ?i)\<lparr>tags := Some new\<rparr>]) = (map ?f ?N)[?i := ?f (?N ! ?i)]"
    by (simp add: map_update)
  also have "\<dots> = (map ?f ?N)[?i := map ?f ?N ! ?i]"
    using lt by (simp only: nth_map)
  also have "\<dots> = map ?f ?N"
    by (rule list_update_id)
  finally show ?thesis
    by (simp add: handleSaveTags_eq Let_def nodes_remove_tags)
qed

lemma labelled_nodes_handleSaveTags:
  "{node_label n | n. n \<in> set (nodes (handleSaveTags g e nid new)) \<and> node_id n = tid}
     = {node_label n | n. n \<in> set (nodes (add_tags nid (tags_to_add g nid new) (with_owner g e nid)))
                          \<and> node_id n = tid}"
proof -
  have e: "\<And>xs. {node_label n | n. n \<in> set xs \<and> node_id n = tid}
          = {lab. (tid, lab) \<in> set (map (\<lambda>n. (node_id n, node_label n)) xs)}"
    by auto
  show ?thesis by (simp only: e idlab_handleSaveTags)
qed

lemma set_nodes_with_owner:
  "set (nodes (with_owner g e nid)) \<subseteq> insert (e\<lparr>tags := Some []\<rparr>) (set (nodes g))"
  "set (nodes g) \<subseteq> set (nodes (with_owner g e nid))"
  by (auto simp: with_owner_def split: option.splits)

lemma tag_labels_handleSaveTags:
  assumes H0: "node_id e = nid"
      and H2: "inj_on tag_id (set (current_tags g nid) \<union> set new)"
      and H3: "\<forall>n\<in>set (nodes g). \<forall>t\<in>set new. node_id n = tag_id t \<longrightarrow> node_label n = t"
      and H4: "tag_id ` (set (current_tags g nid) \<inter> set new) \<subseteq> node_id ` set (nodes g)"
      and H5: "nid \<notin> tag_id ` set new"
      and t: "t \<in> set new"
  shows "{node_label n | n. n \<in> set (nodes (handleSaveTags g e nid new)) \<and> node_id n = tag_id t}
           = {t}"
proof -
  let ?A = "tags_to_add g nid new" and ?W = "with_owner g e nid"
  let ?N = "nodes (add_tags nid ?A ?W)"
  from nodes_add_tags_prefix[of nid ?A ?W]
  obtain ex where N: "?N = nodes ?W @ ex"
    and ex: "\<forall>n\<in>set ex. \<exists>t\<in>set ?A. n = new_tag_node t \<and> tag_id t \<notin> node_id ` set (nodes ?W)"
    by blast
  have all: "node_label n = t" if n: "n \<in> set ?N" "node_id n = tag_id t" for n
  proof -
    from n(1) N consider "n \<in> set (nodes g)" | "n = e\<lparr>tags := Some []\<rparr>" | "n \<in> set ex"
      using set_nodes_with_owner(1)[of g e nid] by auto
    then show ?thesis
    proof cases
      case 1
      with H3 t n(2) show ?thesis by blast
    next
      case 2
      with n(2) H0 H5 t show ?thesis by auto
    next
      case 3
      with ex obtain t' where t': "t' \<in> set ?A" "n = new_tag_node t'" by blast
      from t'(1) have "t' \<in> set new" by (simp add: set_tags_to_add)
      moreover from t'(2) n(2) have "tag_id t' = tag_id t" by (simp add: new_tag_node_def)
      ultimately have "t' = t" using H2 t by (auto dest: inj_onD)
      with t'(2) show ?thesis by (simp add: new_tag_node_def)
    qed
  qed
  have "tag_id t \<in> node_id ` set ?N"
  proof (cases "t \<in> set (current_tags g nid)")
    case True
    with H4 t have "tag_id t \<in> node_id ` set (nodes g)" by blast
    with set_nodes_with_owner(2)[of g e nid] show ?thesis
      by (auto simp: node_ids_add_tags)
  next
    case False
    with t have "t \<in> set ?A" by (simp add: set_tags_to_add)
    then show ?thesis by (simp add: node_ids_add_tags)
  qed
  then obtain n where "n \<in> set ?N" "node_id n = tag_id t" by auto
  with all have "{node_label n | n. n \<in> set ?N \<and> node_id n = tag_id t} = {t}"
    by auto
  then show ?thesis by (simp only: labelled_nodes_handleSaveTags)
qed

lemma linked_tag_labels_handleSaveTags:
  assumes H0: "node_id e = nid"
      and H1: "set (has_tag_targets g nid) = tag_id ` set (current_tags g nid)"
      and H2: "inj_on tag_id (set (current_tags g nid) \<union> set new)"
      and H3: "\<forall>n\<in>set (nodes g). \<forall>t\<in>set new. node_id n = tag_id t \<longrightarrow> node_label n = t"
      and H4: "set (has_tag_targets g nid) \<subseteq> node_id ` set (nodes g)"
      and H5: "nid \<notin> tag_id ` set new"
  shows "set (linked_tag_labels (handleSaveTags g e nid new) nid) = set new"
proof -
  let ?r = "handleSaveTags g e nid new"
  from H1 H4 have H4': "tag_id ` (set (current_tags g nid) \<inter> set new) \<subseteq> node_id ` set (nodes g)"
    by blast
  have "set (linked_tag_labels ?r nid)
      = (\<Union>t\<in>set new. {node_label n | n. n \<in> set (nodes ?r) \<and> node_id n = tag_id t})"
    unfolding set_linked_tag_labels has_tag_targets_handleSaveTags[OF H1 H2] by blast
  also have "\<dots> = (\<Union>t\<in>set new. {t})"
    using tag_labels_handleSaveTags[OF H0 H2 H3 H4' H5] by simp
  finally show ?thesis by simp
qed

lemma count_add_tags:
  "length (filter (\<lambda>n. node_id n = tid) (nodes (add_tags nid ts g)))
     = (if tid \<in> node_id ` set (nodes g) then length (filter (\<lambda>n. node_id n = tid) (nodes g))
        else if tid \<in> tag_id ` set ts then 1 else 0)"
proof (induction ts arbitrary: g)
  case Nil
  have "tid \<notin> node_id ` set (nodes g) \<Longrightarrow> filter (\<lambda>n. node_id n = tid) (nodes g) = []"
    by (auto simp: filter_empty_conv)
  then show ?case by auto
next
  case (Cons t ts)
  have z: "tid \<notin> node_id ` set (nodes g) \<Longrightarrow> filter (\<lambda>n. node_id n = tid) (nodes g) = []"
    by (auto simp: filter_empty_conv)
  show ?case
  proof (cases "find (\<lambda>n. node_id n = tag_id t) (nodes g)")
    case None
    then have nin: "tag_id t \<notin> node_id ` set (nodes g)"
      by (auto simp: find_None_iff)
    show ?thesis
    proof (cases "tag_id t = tid")
      case True
      with None nin z show ?thesis by (simp add: Cons.IH new_tag_node_def)
    next
      case False
      with None show ?thesis by (auto simp add: Cons.IH new_tag_node_def)
    qed
  next
    case (Some a)
    then have "a \<in> set (nodes g)" "node_id a = tag_id t"
      by (auto dest!: find_SomeD)
    then have "tag_id t \<in> node_id ` set (nodes g)"
      by (metis imageI)
    with Some show ?thesis by (auto simp add: Cons.IH)
  qed
qed

lemma count_handleSaveTags:
  "length (filter (\<lambda>n. node_id n = tid) (nodes (handleSaveTags g e nid new)))
     = length (filter (\<lambda>n. node_id n = tid)
         (nodes (add_tags nid (tags_to_add g nid new) (with_owner g e nid))))"
proof -
  have e: "\<And>xs. length (filter (\<lambda>n. node_id n = tid) xs)
      = length (filter (\<lambda>p. fst p = tid) (map (\<lambda>n. (node_id n, node_label n)) xs))"
    by (simp add: filter_map comp_def)
  show ?thesis by (simp only: e idlab_handleSaveTags)
qed

lemma count_with_owner:
  "node_id e \<noteq> tid \<Longrightarrow>
   filter (\<lambda>n. node_id n = tid) (nodes (with_owner g e nid)) = filter (\<lambda>n. node_id n = tid) (nodes g)"
  by (simp add: with_owner_def split: option.splits)

lemma ids_with_owner:
  "node_id e \<noteq> tid \<Longrightarrow>
   tid \<in> node_id ` set (nodes (with_owner g e nid)) \<longleftrightarrow> tid \<in> node_id ` set (nodes g)"
  by (auto simp: with_owner_def split: option.splits)

lemma tag_node_count:
  assumes "node_id e \<noteq> tid"
  shows "length (filter (\<lambda>n. node_id n = tid) (nodes (handleSaveTags g e nid new)))
     = (if tid \<in> node_id ` set (nodes g) then length (filter (\<lambda>n. node_id n = tid) (nodes g))
        else if tid \<in> tag_id ` set (tags_to_add g nid new) then 1 else 0)"
  unfolding count_handleSaveTags count_add_tags count_with_owner[OF assms] ids_with_owner[OF assms]
  by (rule refl)

lemma take_nodes_handleSaveTags:
  "take (length (nodes g)) (nodes (handleSaveTags g e nid new))
     = (nodes g)[owner_index g nid := (nodes g ! owner_index g nid)\<lparr>tags := Some new\<rparr>]"
proof -
  let ?B = "nodes (with_owner g e nid)" and ?i = "owner_index g nid"
  from nodes_handleSaveTags[of g e nid new] obtain ex where
    ex: "nodes (handleSaveTags g e nid new) = (?B @ ex)[?i := (?B ! ?i)\<lparr>tags := Some new\<rparr>]"
    by blast
  show ?thesis
  proof (cases "find_index (\<lambda>n. node_id n = nid) (nodes g)")
    case None
    then show ?thesis
      by (simp add: ex with_owner_def owner_index_def take_update_cancel list_update_beyond)
  next
    case (Some i)
    with find_index_Some[OF Some] show ?thesis
      by (simp add: ex with_owner_def owner_index_def take_update_swap list_update_append1)
  qed
qed

text \<open>
  Why the amended form of C1 asks for distinct derived ids: when the new label differs
  from a current one only by case, both derive the same id, and the link added for the
  new label is removed again together with the link of the old one.
\<close>

lemma handleSaveTags_case_variant:
  "current_tags example_graph ''cell_Sheet1_A1'' = [''x''] \<and>
   links (handleSaveTags example_graph example_owner ''cell_Sheet1_A1'' [''X'']) = [] \<and>
   current_tags (handleSaveTags example_graph example_owner ''cell_Sheet1_A1'' [''X''])
     ''cell_Sheet1_A1'' = [''X'']"
  by code_simp

subsection \<open>Claims about SetTags\<close>

text \<open>
  Claim C1, as stated, fails: \<open>handleSaveTags\<close> computes the labels to add and to remove
  from the owner's \<open>tags\<close> field, not from the links. On a graph whose owner has an
  empty \<open>tags\<close> field but a \<open>HAS_TAG\<close> link to the Tag node \<open>x\<close>, saving the empty
  label list leaves the link in place, so the labels reachable from the owner are
  \<open>x\<close>, not the empty set.
\<close>

theorem SetTags_stale_links_counterexample:
  "linked_tag_labels
     (handleSaveTags example_graph_stale (example_owner\<lparr>tags := Some []\<rparr>) ''cell_Sheet1_A1'' [])
     ''cell_Sheet1_A1'' = [''x''] \<and>
   set (linked_tag_labels
     (handleSaveTags example_graph_stale (example_owner\<lparr>tags := Some []\<rparr>) ''cell_Sheet1_A1'' [])
     ''cell_Sheet1_A1'') \<noteq> set []"
  by code_simp

text \<open>
  Claim C1, amended. Suppose that in the input graph the targets of the owner's
  \<open>HAS_TAG\<close> links are exactly the derived ids of the labels in the owner's \<open>tags\<close>
  field and each of them is the id of a node; that distinct labels among the current and
  the new ones have distinct derived ids; that every node whose id is the derived id of a
  new label carries that label; and that the owner is not itself one of those Tag nodes
  (\<open>tagEditor.node\<close> being the owner). Then after \<open>handleSaveTags\<close> the set of labels
  of the nodes reached from the owner by \<open>HAS_TAG\<close> links is exactly the set of new
  labels.
\<close>

theorem SetTags_links_agree_with_new_tags:
  assumes "node_id e = nid"
      and "set (has_tag_targets g nid) = tag_id ` set (current_tags g nid)"
      and "set (has_tag_targets g nid) \<subseteq> node_id ` set (nodes g)"
      and "inj_on tag_id (set (current_tags g nid) \<union> set newTags)"
      and "\<forall>n\<in>set (nodes g). \<forall>t\<in>set newTags. node_id n = tag_id t \<longrightarrow> node_label n = t"
      and "nid \<notin> tag_id ` set newTags"
  shows "set (linked_tag_labels (handleSaveTags g e nid newTags) nid) = set newTags"
  using assms by (intro linked_tag_labels_handleSaveTags) 

text \<open>Witness for C1: the example owner, tagged \<open>x\<close>, is saved with the labels \<open>y\<close>
  and \<open>Big Deal\<close>.\<close>

theorem SetTags_links_agree_with_new_tags_witness:
  "node_id example_owner = ''cell_Sheet1_A1'' \<and>
   set (has_tag_targets example_graph ''cell_Sheet1_A1'')
     = tag_id ` set (current_tags example_graph ''cell_Sheet1_A1'') \<and>
   set (has_tag_targets example_graph ''cell_Sheet1_A1'') \<subseteq> node_id ` set (nodes example_graph) \<and>
   inj_on tag_id (set (current_tags example_graph ''cell_Sheet1_A1'') \<union> set [''y'', ''Big Deal'']) \<and>
   ''cell_Sheet1_A1'' \<notin> tag_id ` set [''y'', ''Big Deal''] \<and>
   set (linked_tag_labels (handleSaveTags example_graph example_owner ''cell_Sheet1_A1'' [''y'', ''Big Deal''])
          ''cell_Sheet1_A1'') = {''y'', ''Big Deal''}"
proof -
  have tx: "tag_id ''x'' = ''tag_x''" and ty: "tag_id ''y'' = ''tag_y''"
    and tb: "tag_id ''Big Deal'' = ''tag_big_deal''" by code_simp+
  have ct: "current_tags example_graph ''cell_Sheet1_A1'' = [''x'']" by code_simp
  have ht: "has_tag_targets example_graph ''cell_Sheet1_A1'' = [''tag_x'']" by code_simp
  have ns: "map node_id (nodes example_graph) = [''cell_Sheet1_A1'', ''tag_x'']" by code_simp
  have h0: "node_id example_owner = ''cell_Sheet1_A1''" by code_simp
  have h1: "set (has_tag_targets example_graph ''cell_Sheet1_A1'')
     = tag_id ` set (current_tags example_graph ''cell_Sheet1_A1'')"
    by (simp add: ct ht tx)
  have h2: "set (has_tag_targets example_graph ''cell_Sheet1_A1'') \<subseteq> node_id ` set (nodes example_graph)"
    using ns by (simp add: ht flip: set_map)
  have h3: "inj_on tag_id (set (current_tags example_graph ''cell_Sheet1_A1'') \<union> set [''y'', ''Big Deal''])"
    by (simp add: ct tx ty tb)
  have h4: "\<forall>n\<in>set (nodes example_graph). \<forall>t\<in>set [''y'', ''Big Deal''].
      node_id n = tag_id t \<longrightarrow> node_label n = t"
    by (simp add: example_graph_def example_owner_def new_tag_node_def tx ty tb)
  have h5: "''cell_Sheet1_A1'' \<notin> tag_id ` set [''y'', ''Big Deal'']"
    by (simp add: ty tb)
  from SetTags_links_agree_with_new_tags[OF h0 h1 h2 h3 h4 h5] h0 h1 h2 h3 h5
  show ?thesis by simp
qed

text \<open>
  Claim C7, as stated, fails on its own example: the id is built by lowercasing and
  replacing each whitespace character by an underscore, without trimming, so
  \<open>Revenue\<close> and \<open>revenue\<close> followed by a space get different ids.
\<close>

theorem tag_id_trailing_space_counterexample:
  "tag_id ''Revenue'' = ''tag_revenue'' \<and> tag_id ''revenue '' = ''tag_revenue_'' \<and>
   tag_id ''Revenue'' \<noteq> tag_id ''revenue ''"
  by code_simp

text \<open>
  Claim C7, amended. Two labels get the same Tag node id exactly when they agree after
  lowercasing and replacing each whitespace character by an underscore (no trimming, no
  collapsing). For such an id \<open>handleSaveTags\<close> finds or creates a single node: when
  the graph already has nodes with that id their number is unchanged, and otherwise
  exactly one is created if a label with that id is added and none if not (the
  synthesized owner node not being that node).
\<close>

theorem tag_id_shared_node:
  "(tag_id l1 = tag_id l2 \<longleftrightarrow>
      replace_whitespace (toLowerCase l1) = replace_whitespace (toLowerCase l2)) \<and>
   (node_id e \<noteq> tag_id l1 \<longrightarrow>
      length (filter (\<lambda>n. node_id n = tag_id l1) (nodes (handleSaveTags g e nid newTags)))
        = (if tag_id l1 \<in> node_id ` set (nodes g)
           then length (filter (\<lambda>n. node_id n = tag_id l1) (nodes g))
           else if tag_id l1 \<in> tag_id ` set (tags_to_add g nid newTags) then 1 else 0))"
  using tag_node_count[of e "tag_id l1" g nid newTags] by (simp add: tag_id_def)

text \<open>Witness for C7: \<open>Revenue\<close> is added, then \<open>revenue\<close>; one node \<open>tag_revenue\<close>
  exists after each save.\<close>

theorem tag_id_shared_node_witness:
  "tag_id ''Revenue'' = tag_id ''revenue'' \<and>
   node_id example_owner \<noteq> tag_id ''Revenue'' \<and>
   length (filter (\<lambda>n. node_id n = tag_id ''Revenue'')
     (nodes (handleSaveTags example_graph example_owner ''cell_Sheet1_A1'' [''x'', ''Revenue'']))) = 1 \<and>
   length (filter (\<lambda>n. node_id n = tag_id ''Revenue'')
     (nodes (handleSaveTags
        (handleSaveTags example_graph example_owner ''cell_Sheet1_A1'' [''x'', ''Revenue''])
        example_owner ''cell_Sheet1_A1'' [''x'', ''Revenue'', ''revenue'']))) = 1"
proof -
  let ?g1 = "handleSaveTags example_graph example_owner ''cell_Sheet1_A1'' [''x'', ''Revenue'']"
  have e: "tag_id ''Revenue'' = tag_id ''revenue''" by code_simp
  have n: "node_id example_owner \<noteq> tag_id ''Revenue''" by code_simp
  have a: "tag_id ''Revenue'' \<notin> node_id ` set (nodes example_graph)" by code_simp
  have b: "tag_id ''Revenue'' \<in> tag_id ` set (tags_to_add example_graph ''cell_Sheet1_A1'' [''x'', ''Revenue''])"
    by code_simp
  have c: "tag_id ''Revenue'' \<in> node_id ` set (nodes ?g1)" by code_simp
  from tag_id_shared_node[of "''Revenue''" "''revenue''" example_owner example_graph
      "''cell_Sheet1_A1''" "[''x'', ''Revenue'']"] n a b
  have 1: "length (filter (\<lambda>n. node_id n = tag_id ''Revenue'') (nodes ?g1)) = 1" by simp
  from tag_id_shared_node[of "''Revenue''" "''revenue''" example_owner ?g1
      "''cell_Sheet1_A1''" "[''x'', ''Revenue'', ''revenue'']"] n c 1
  have 2: "length (filter (\<lambda>n. node_id n = tag_id ''Revenue'')
     (nodes (handleSaveTags ?g1 example_owner ''cell_Sheet1_A1'' [''x'', ''Revenue'', ''revenue'']))) = 1"
    by simp
  from e n 1 2 show ?thesis by simp
qed

text \<open>
  Claim C8. Saving the same labels for the same owner a second time returns the graph
  unchanged. The node passed as \<open>tagEditor.node\<close> is the owner: the popover calls
  \<open>onSave(node.id, tags)\<close> with that node.
\<close>

theorem SetTags_idempotent:
  "node_id e = nid \<Longrightarrow>
   handleSaveTags (handleSaveTags g e nid newTags) e nid newTags = handleSaveTags g e nid newTags"
  by (rule handleSaveTags_idem)

text \<open>Witness for C8.\<close>

theorem SetTags_idempotent_witness:
  "node_id example_owner = ''cell_Sheet1_A1'' \<and>
   handleSaveTags (handleSaveTags example_graph example_owner ''cell_Sheet1_A1'' [''y'', ''Big Deal''])
      example_owner ''cell_Sheet1_A1'' [''y'', ''Big Deal'']
     = handleSaveTags example_graph example_owner ''cell_Sheet1_A1'' [''y'', ''Big Deal''] \<and>
   map node_id (nodes (handleSaveTags example_graph example_owner ''cell_Sheet1_A1'' [''y'', ''Big Deal'']))
     = [''cell_Sheet1_A1'', ''tag_x'', ''tag_y'', ''tag_big_deal''] \<and>
   map target (links (handleSaveTags example_graph example_owner ''cell_Sheet1_A1'' [''y'', ''Big Deal'']))
     = [''tag_y'', ''tag_big_deal'']"
proof -
  have h: "node_id example_owner = ''cell_Sheet1_A1''" by code_simp
  have n: "map node_id (nodes (handleSaveTags example_graph example_owner ''cell_Sheet1_A1'' [''y'', ''Big Deal'']))
     = [''cell_Sheet1_A1'', ''tag_x'', ''tag_y'', ''tag_big_deal'']" by code_simp
  have l: "map target (links (handleSaveTags example_graph example_owner ''cell_Sheet1_A1'' [''y'', ''Big Deal'']))
     = [''tag_y'', ''tag_big_deal'']" by code_simp
  from SetTags_idempotent[OF h, of example_graph "[''y'', ''Big Deal'']"] h n l
  show ?thesis by simp
qed

text \<open>
  Claim C9, as stated, fails: the removal filter tests only source and target, so a
  \<open>RELATED_TO\<close> link between the owner and the Tag node of a removed label is deleted
  together with the \<open>HAS_TAG\<close> link.
\<close>

theorem SetTags_removes_other_labels_counterexample:
  "tags_to_remove example_graph_two_links ''cell_Sheet1_A1'' [] = [''x''] \<and>
   example_related_link \<in> set (links example_graph_two_links) \<and>
   link_label example_related_link \<noteq> ''HAS_TAG'' \<and>
   example_related_link \<notin> set (links
     (handleSaveTags example_graph_two_links example_owner ''cell_Sheet1_A1'' []))"
  by code_simp

text \<open>
  Claim C9, amended. The links of the result are the links of the input followed by the
  links added for \<open>tagsToAdd\<close>, in order, without every link whose source is the owner
  and whose target is the derived id of a label in \<open>tagsToRemove\<close>, whatever its
  label; all other links are untouched. No node is deleted: the input's nodes are still
  there, in place, unchanged but for the owner's \<open>tags\<close> field.
\<close>

theorem SetTags_frame:
  "links (handleSaveTags g e nid newTags) =
     filter (\<lambda>l. \<not> (source l = nid \<and> target l \<in> tag_id ` set (tags_to_remove g nid newTags)))
       (links g @ map (new_tag_link nid) (tags_to_add g nid newTags)) \<and>
   take (length (nodes g)) (nodes (handleSaveTags g e nid newTags))
     = (nodes g)[owner_index g nid := (nodes g ! owner_index g nid)\<lparr>tags := Some newTags\<rparr>]"
  by (simp only: links_handleSaveTags take_nodes_handleSaveTags simp_thms)


section \<open>ContentCache: src/services/cacheService.ts\<close>

text \<open>
  JavaScript values that JSON texts denote and \<open>JSON.stringify\<close> accepts. An object is
  the list of its properties in enumeration order; a \<open>number\<close> is a finite double, read
  as a real, or one of the three non-finite ones.
\<close>

datatype number = Finite real | NaN | PosInfinity | NegInfinity

datatype json =
  JNull | JBool bool | JNum number | JStr string | JArr "json list" | JObj "(string \<times> json) list"

subsection \<open>getCachedAnalysis\<close>

text \<open>\<open>localStorage\<close>: a string-keyed store of strings.\<close>

type_synonym storage = "string \<rightharpoonup> string"

text \<open>Reading a property of a parsed value: \<open>None\<close> is \<open>undefined\<close>. On \<open>null\<close> the
  read throws a \<open>TypeError\<close>, which \<open>getCachedAnalysis\<close> handles before it gets here;
  arrays and primitives have none of the three properties read.\<close>

fun get_property :: "json \<Rightarrow> string \<Rightarrow> json option" where
  "get_property (JObj kvs) k = map_of kvs k"
| "get_property v k = None"

text \<open>\<open>ToBoolean\<close>, as applied by \<open>&&\<close> and \<open>if\<close>.\<close>

fun truthy :: "json option \<Rightarrow> bool" where
  "truthy None = False"
| "truthy (Some JNull) = False"
| "truthy (Some (JBool b)) = b"
| "truthy (Some (JNum n)) = (n \<noteq> Finite 0 \<and> n \<noteq> NaN)"
| "truthy (Some (JStr s)) = (s \<noteq> [])"
| "truthy (Some (JArr xs)) = True"
| "truthy (Some (JObj kvs)) = True"

text \<open>
  \<open>getCachedAnalysis(key)\<close>, with the store as state and the platform function
  \<open>JSON.parse\<close> as a parameter (\<open>None\<close>: it throws a \<open>SyntaxError\<close>). The result is
  the value returned (\<open>None\<close> is \<open>null\<close>) and the store afterwards. Both exceptions
  of the \<open>try\<close> block lead to the \<open>catch\<close> branch, which removes the item.
\<close>

definition getCachedAnalysis ::
  "(string \<Rightarrow> json option) \<Rightarrow> storage \<Rightarrow> string \<Rightarrow> json option \<times> storage" where
  "getCachedAnalysis JSON_parse localStorage key =
     (case localStorage key of
        None \<Rightarrow> (None, localStorage)
      | Some cachedItem \<Rightarrow>
          if cachedItem = [] then (None, localStorage)
          else
            (case JSON_parse cachedItem of
               None \<Rightarrow> (None, localStorage(key := None))
             | Some JNull \<Rightarrow> (None, localStorage(key := None))
             | Some parsed \<Rightarrow>
                 if truthy (get_property parsed ''metadata'') \<and>
                    truthy (get_property parsed ''graph'') \<and>
                    truthy (get_property parsed ''sheets'')
                 then (Some parsed, localStorage)
                 else (None, localStorage)))"

text \<open>A stand-in for \<open>JSON.parse\<close> on the two texts used in the evaluations below: the
  empty object, and a text that is not JSON.\<close>

definition example_parse :: "string \<Rightarrow> json option" where
  "example_parse s = (if s = ''{}'' then Some (JObj []) else None)"

text \<open>An item that \<open>JSON.parse\<close> rejects is removed and \<open>null\<close> is returned.\<close>

lemma getCachedAnalysis_unparsable:
  "localStorage key = Some cachedItem \<Longrightarrow> cachedItem \<noteq> [] \<Longrightarrow> JSON_parse cachedItem = None \<Longrightarrow>
   getCachedAnalysis JSON_parse localStorage key = (None, localStorage(key := None))"
  by (simp add: getCachedAnalysis_def)

text \<open>
  Claim C6 says that an item which parses but lacks \<open>metadata\<close>, \<open>graph\<close> or
  \<open>sheets\<close> is answered with \<open>null\<close> and deleted. The code answers \<open>null\<close> but
  deletes only in the \<open>catch\<close> branch: such an item (any parsed value other than
  \<open>null\<close> whose three parts are not all truthy) is still in the store afterwards.
\<close>

theorem getCachedAnalysis_keeps_incomplete_entry:
  "localStorage key = Some cachedItem \<Longrightarrow> cachedItem \<noteq> [] \<Longrightarrow>
   JSON_parse cachedItem = Some parsed \<Longrightarrow> parsed \<noteq> JNull \<Longrightarrow>
   \<not> (truthy (get_property parsed ''metadata'') \<and> truthy (get_property parsed ''graph'') \<and>
      truthy (get_property parsed ''sheets'')) \<Longrightarrow>
   getCachedAnalysis JSON_parse localStorage key = (None, localStorage) \<and>
   snd (getCachedAnalysis JSON_parse localStorage key) key = Some cachedItem"
  by (cases parsed) (auto simp: getCachedAnalysis_def)

text \<open>The evaluation at the stored text \<open>{}\<close>.\<close>

theorem getCachedAnalysis_keeps_incomplete_entry_witness:
  "[''k'' \<mapsto> ''{}''] ''k'' = Some ''{}'' \<and> ''{}'' \<noteq> [] \<and>
   example_parse ''{}'' = Some (JObj []) \<and> JObj [] \<noteq> JNull \<and>
   \<not> (truthy (get_property (JObj []) ''metadata'') \<and> truthy (get_property (JObj []) ''graph'') \<and>
      truthy (get_property (JObj []) ''sheets'')) \<and>
   getCachedAnalysis example_parse [''k'' \<mapsto> ''{}''] ''k'' = (None, [''k'' \<mapsto> ''{}'']) \<and>
   snd (getCachedAnalysis example_parse [''k'' \<mapsto> ''{}''] ''k'') ''k'' = Some ''{}''"
  using getCachedAnalysis_keeps_incomplete_entry[of "[''k'' \<mapsto> ''{}'']" "''k''" "''{}''"
      example_parse "JObj []"]
  by (simp add: example_parse_def)


section \<open>TableTransform: sortData in services/pythonService.ts\<close>

text \<open>
  The table types of \<open>src/types.ts\<close>. \<open>sortData\<close> works on the deep copy
  \<open>JSON.parse(JSON.stringify(sheet))\<close>, in which every cell value is \<open>null\<close>, a
  string or a finite number; that copy is the identity on the sheets modelled here.
\<close>

record CellData =
  cell_address :: string
  cell_value :: "scalar option"
  cell_formula :: "string option"

record SheetData =
  sheet_name :: string
  sheet_data :: "CellData list list"

datatype direction = Asc | Desc

text \<open>\<open>a[columnIndex]?.value\<close>: \<open>None\<close> stands for \<open>null\<close> and for \<open>undefined\<close>,
  which the comparator treats alike; a row too short for the column gives
  \<open>undefined\<close>.\<close>

definition column_value :: "CellData list \<Rightarrow> nat \<Rightarrow> scalar option" where
  "column_value a columnIndex =
     (if columnIndex < length a then cell_value (a ! columnIndex) else None)"

text \<open>\<open>String(v)\<close>; the platform's rendering of a number is a parameter.\<close>

fun to_String :: "(real \<Rightarrow> string) \<Rightarrow> scalar \<Rightarrow> string" where
  "to_String number_to_string (Num x) = number_to_string x"
| "to_String number_to_string (Str s) = s"

text \<open>The body of the comparator, on the two values read from the rows. Strings are
  compared lexicographically by code unit.\<close>

definition compare_values ::
  "(real \<Rightarrow> string) \<Rightarrow> direction \<Rightarrow> scalar option \<Rightarrow> scalar option \<Rightarrow> real" where
  "compare_values number_to_string dir valA valB =
     (let factor = (if dir = Asc then 1 else - 1)
      in case valA of
           None \<Rightarrow> 1 * factor
         | Some va \<Rightarrow>
             (case valB of
                None \<Rightarrow> - 1 * factor
              | Some vb \<Rightarrow>
                  (case (va, vb) of
                     (Num x, Num y) \<Rightarrow> (x - y) * factor
                   | _ \<Rightarrow>
                       if to_String number_to_string va < to_String number_to_string vb
                       then - 1 * factor
                       else if to_String number_to_string va > to_String number_to_string vb
                       then 1 * factor
                       else 0)))"

definition compare_rows ::
  "(real \<Rightarrow> string) \<Rightarrow> nat \<Rightarrow> direction \<Rightarrow> CellData list \<Rightarrow> CellData list \<Rightarrow> real" where
  "compare_rows number_to_string columnIndex dir a b =
     compare_values number_to_string dir (column_value a columnIndex) (column_value b columnIndex)"

text \<open>
  \<open>Array.prototype.sort\<close> is a parameter of \<open>sortData\<close>. ECMAScript fixes its result
  only when the comparator is consistent on the array; the result is then the array's
  elements ordered by the comparator. Where the comparator is not consistent (two absent
  cells, or numbers mixed with strings) the order is the engine's choice.
\<close>

definition sortData ::
  "((CellData list \<Rightarrow> CellData list \<Rightarrow> real) \<Rightarrow> CellData list list \<Rightarrow> CellData list list) \<Rightarrow>
   (real \<Rightarrow> string) \<Rightarrow> SheetData \<Rightarrow> nat \<Rightarrow> direction \<Rightarrow> SheetData" where
  "sortData Array_sort number_to_string sheet columnIndex dir =
     (case sheet_data sheet of
        [] \<Rightarrow> sheet
      | header # rows \<Rightarrow>
          sheet\<lparr>sheet_data :=
            header # Array_sort (compare_rows number_to_string columnIndex dir) rows\<rparr>)"

text \<open>
  A reference engine for the evaluations below: the stable insertion sort, which places
  each element in turn before the first element of the sorted prefix that it compares
  below. It is used only on arrays on which the comparator is consistent, where every
  conforming engine returns the same list.
\<close>

fun insert_sorted :: "('a \<Rightarrow> 'a \<Rightarrow> real) \<Rightarrow> 'a \<Rightarrow> 'a list \<Rightarrow> 'a list" where
  "insert_sorted comparefn x [] = [x]"
| "insert_sorted comparefn x (y # ys) =
     (if comparefn x y < 0 then x # y # ys else y # insert_sorted comparefn x ys)"

definition insertion_sort :: "('a \<Rightarrow> 'a \<Rightarrow> real) \<Rightarrow> 'a list \<Rightarrow> 'a list" where
  "insertion_sort comparefn xs = foldl (\<lambda>sorted x. insert_sorted comparefn x sorted) [] xs"


definition data_rows :: "SheetData \<Rightarrow> CellData list list" where
  "data_rows sheet = tl (sheet_data sheet)"

definition ordered_by :: "('a \<Rightarrow> 'a \<Rightarrow> real) \<Rightarrow> 'a list \<Rightarrow> bool" where
  "ordered_by comparefn ys = sorted_wrt (\<lambda>a b. comparefn a b \<le> 0) ys"

definition strictly_ordered_by :: "('a \<Rightarrow> 'a \<Rightarrow> real) \<Rightarrow> 'a list \<Rightarrow> bool" where
  "strictly_ordered_by comparefn ys = sorted_wrt (\<lambda>a b. comparefn a b < 0) ys"



text \<open>A stand-in for the rendering of numbers, and a one-column example sheet with the
  values 5, null, 2.\<close>

definition example_number_to_string :: "real \<Rightarrow> string" where
  "example_number_to_string x = (if x = 5 then ''5'' else if x = 2 then ''2'' else ''?'')"



subsection \<open>Lemmas about the comparator and the reference engine\<close>




lemma length_insert_sorted: "length (insert_sorted c x ys) = Suc (length ys)"
  by (induction ys) auto

lemma compare_desc_neg:
  "compare_rows ns col Desc a b = - compare_rows ns col Asc a b"
  by (simp add: compare_rows_def compare_values_def split: option.splits scalar.splits)

lemma compare_asc_antisym:
  "compare_rows ns col Asc y x < 0 \<Longrightarrow> compare_rows ns col Asc x y > 0"
  by (auto simp: compare_rows_def compare_values_def split: option.splits scalar.splits if_splits)









lemma length_foldl_insert:
  "length (foldl (\<lambda>sorted x. insert_sorted c x sorted) acc xs) = length acc + length xs"
  by (induction xs arbitrary: acc) (auto simp: length_insert_sorted)

lemma data_rows_sortData:
  "data_rows (sortData srt ns sheet col dir) = srt (compare_rows ns col dir) (data_rows sheet)
   \<or> sheet_data sheet = []"
  by (cases "sheet_data sheet") (simp_all add: sortData_def data_rows_def)









lemma length_insertion_sort: "length (insertion_sort c xs) = length xs"
  by (simp add: insertion_sort_def length_foldl_insert)

lemma strictly_ordered_desc_rev:
  "strictly_ordered_by (compare_rows ns col Asc) xs \<Longrightarrow>
   ordered_by (compare_rows ns col Desc) (rev xs)"
  unfolding strictly_ordered_by_def ordered_by_def sorted_wrt_rev
  by (erule sorted_wrt_mono_rel[rotated]) (use compare_asc_antisym in \<open>fastforce simp: compare_desc_neg\<close>)





subsection \<open>Claim about sortData\<close>




section \<open>ContentCache: generateCacheKey in src/services/cacheService.ts\<close>

text \<open>\<open>Array.prototype.join\<close> on texts, as \<open>JSON.stringify\<close> uses it between elements
  and between properties.\<close>

fun join :: "string \<Rightarrow> string list \<Rightarrow> string" where
  "join sep [] = []"
| "join sep [x] = x"
| "join sep (x # y # ys) = x @ sep @ join sep (y # ys)"

text \<open>
  The replacer of \<open>generateCacheKey\<close>, on the properties of an object:
  \<open>Object.keys(value).sort().reduce((sorted, key) => { sorted[key] = value[key]; return
  sorted }, {})\<close>. \<open>sort()\<close> without a comparator orders strings by code unit.
  Property names are distinct, and names that are array indices, which an object
  enumerates first whatever the insertion order, do not occur in table data.
\<close>

definition sorted_object :: "(string \<times> json) list \<Rightarrow> (string \<times> json) list" where
  "sorted_object kvs = map (\<lambda>key. (key, the (map_of kvs key))) (sort (map fst kvs))"

lemma sorted_object_mem:
  "(k, x) \<in> set (sorted_object kvs) \<Longrightarrow> (k, x) \<in> set kvs"
proof -
  assume "(k, x) \<in> set (sorted_object kvs)"
  then have k: "k \<in> fst ` set kvs" and x: "x = the (map_of kvs k)"
    by (auto simp: sorted_object_def)
  from k obtain y where "map_of kvs k = Some y"
    by (auto dest: weak_map_of_SomeI)
  with x show ?thesis by (auto dest: map_of_SomeD)
qed

text \<open>
  \<open>JSON.stringify(data, replacer)\<close>: the replacer is applied to a value before it is
  serialised, and again to each element or property value on the way down. It returns
  every value but an object unchanged. The platform's quoting of a string
  (\<open>QuoteJSONString\<close>) and rendering of a finite number are parameters; non-finite
  numbers are serialised as \<open>null\<close>.
\<close>

function (sequential) stringify :: "(string \<Rightarrow> string) \<Rightarrow> (real \<Rightarrow> string) \<Rightarrow> json \<Rightarrow> string" where
  "stringify quote number_to_string JNull = ''null''"
| "stringify quote number_to_string (JBool b) = (if b then ''true'' else ''false'')"
| "stringify quote number_to_string (JNum (Finite x)) = number_to_string x"
| "stringify quote number_to_string (JNum n) = ''null''"
| "stringify quote number_to_string (JStr s) = quote s"
| "stringify quote number_to_string (JArr xs) =
     ''['' @ join '','' (map (stringify quote number_to_string) xs) @ '']''"
| "stringify quote number_to_string (JObj kvs) =
     ''{'' @ join '',''
        (map (\<lambda>(key, x). quote key @ '':'' @ stringify quote number_to_string x)
             (sorted_object kvs)) @ ''}''"
  by pat_completeness auto
termination
proof (relation "measure (\<lambda>(q, n, v). size v)")
  show "wf (measure (\<lambda>(q, n, v). size v))" by simp
next
  fix quote :: "string \<Rightarrow> string" and number_to_string :: "real \<Rightarrow> string"
    and xs :: "json list" and x
  assume "x \<in> set xs"
  then show "((quote, number_to_string, x), (quote, number_to_string, JArr xs))
      \<in> measure (\<lambda>(q, n, v). size v)"
    by (simp add: size_list_estimation' less_Suc_eq_le)
next
  fix quote :: "string \<Rightarrow> string" and number_to_string :: "real \<Rightarrow> string" 
    and kvs :: "(string \<times> json) list" and x xa and y :: json
  assume "x \<in> set (sorted_object kvs)" "(xa, y) = x"
  then have "(xa, y) \<in> set kvs" by (auto dest: sorted_object_mem)
  then have "size_prod (\<lambda>_. 0) size (xa, y) \<le> size_list (size_prod (\<lambda>_. 0) size) kvs"
    by (rule size_list_estimation') simp
  then show "((quote, number_to_string, y), (quote, number_to_string, JObj kvs))
      \<in> measure (\<lambda>(q, n, v). size v)"
    by simp
qed

text \<open>\<open>generateCacheKey(data)\<close>, with the SHA-256 hex digest as a parameter.\<close>

definition generateCacheKey ::
  "(string \<Rightarrow> string) \<Rightarrow> (string \<Rightarrow> string) \<Rightarrow> (real \<Rightarrow> string) \<Rightarrow> json \<Rightarrow> string" where
  "generateCacheKey sha256 quote number_to_string data =
     sha256 (stringify quote number_to_string data)"

text \<open>
  Two values hold the same records up to the order of object keys: equal scalars,
  arrays that agree element by element, objects with the same number of distinctly
  named properties where each property of the first has a namesake in the second with
  the same value up to key order.
\<close>

inductive same_up_to_key_order :: "json \<Rightarrow> json \<Rightarrow> bool" where
  same_value: "same_up_to_key_order a a"
| same_array: "list_all2 same_up_to_key_order xs ys \<Longrightarrow> same_up_to_key_order (JArr xs) (JArr ys)"
| same_object:
    "distinct (map fst kvs) \<Longrightarrow> distinct (map fst kvs') \<Longrightarrow> length kvs = length kvs' \<Longrightarrow>
     (\<forall>p\<in>set kvs. \<exists>v'. (fst p, v') \<in> set kvs' \<and> same_up_to_key_order (snd p) v') \<Longrightarrow>
     same_up_to_key_order (JObj kvs) (JObj kvs')"

text \<open>A position inside a value, as a path of array indices and property names, and
  the replacement of the value at that position, as the assignment
  \<open>data[i].data[r][c].value = v\<close> does for a cell value.\<close>

datatype step = Index nat | Key string

fun valid_path :: "step list \<Rightarrow> json \<Rightarrow> bool" where
  "valid_path [] t = True"
| "valid_path (Index i # p) (JArr xs) = (i < length xs \<and> valid_path p (xs ! i))"
| "valid_path (Key k # p) (JObj kvs) =
     (distinct (map fst kvs) \<and> (case map_of kvs k of None \<Rightarrow> False | Some x \<Rightarrow> valid_path p x))"
| "valid_path p t = False"

fun replace_at :: "step list \<Rightarrow> json \<Rightarrow> json \<Rightarrow> json" where
  "replace_at [] v t = v"
| "replace_at (Index i # p) v (JArr xs) =
     (if i < length xs then JArr (xs[i := replace_at p v (xs ! i)]) else JArr xs)"
| "replace_at (Key k # p) v (JObj kvs) =
     JObj (map (\<lambda>(key, x). if key = k then (key, replace_at p v x) else (key, x)) kvs)"
| "replace_at p v t = t"

text \<open>
  What the statements about a changed cell value need: the values that are serialised
  as \<open>null\<close>; the scalar values, which a cell can hold; that the finite number of a
  value lies in a set \<open>D\<close>; and what is assumed of the platform's renderings, that
  quoting is injective and starts with a quotation mark, and that the rendering of the
  numbers in \<open>D\<close> is injective and starts with a digit or a minus sign.
\<close>

definition renders_as_null :: "json \<Rightarrow> bool" where
  "renders_as_null v = (v = JNull \<or> v = JNum NaN \<or> v = JNum PosInfinity \<or> v = JNum NegInfinity)"

fun scalar_value :: "json \<Rightarrow> bool" where
  "scalar_value (JArr xs) = False"
| "scalar_value (JObj kvs) = False"
| "scalar_value v = True"

fun number_in :: "real set \<Rightarrow> json \<Rightarrow> bool" where
  "number_in D (JNum (Finite x)) = (x \<in> D)"
| "number_in D v = True"

definition platform_rendering :: "(string \<Rightarrow> string) \<Rightarrow> (real \<Rightarrow> string) \<Rightarrow> real set \<Rightarrow> bool" where
  "platform_rendering quote number_to_string D =
     (inj quote \<and> (\<forall>s. take 1 (quote s) = [CHR 0x22]) \<and>
      inj_on number_to_string D \<and>
      (\<forall>x\<in>D. number_to_string x \<noteq> [] \<and> hd (number_to_string x) \<in> set ''-0123456789''))"

text \<open>Stand-ins for the platform functions in the evaluations below, and a one-cell
  table sequence.\<close>

definition example_quote :: "string \<Rightarrow> string" where
  "example_quote s = [CHR 0x22] @ s @ [CHR 0x22]"

definition example_sha256 :: "string \<Rightarrow> string" where
  "example_sha256 s = s"

definition example_tables :: "json \<Rightarrow> json" where
  "example_tables v =
     JArr [JObj [(''name'', JStr ''S''),
                 (''data'', JArr [JArr [JObj [(''address'', JStr ''A1''), (''value'', v)]]])]]"

definition example_tables_reordered :: "json \<Rightarrow> json" where
  "example_tables_reordered v =
     JArr [JObj [(''data'', JArr [JArr [JObj [(''value'', v), (''address'', JStr ''A1'')]]]),
                 (''name'', JStr ''S'')]]"

subsection \<open>Lemmas about the serialisation\<close>

lemma sorted_keys_eq:
  assumes d: "distinct (map fst kvs)" and d': "distinct (map fst kvs')"
      and l: "length kvs = length kvs'"
      and sub: "fst ` set kvs \<subseteq> fst ` set kvs'"
  shows "sort (map fst kvs) = sort (map fst kvs')"
proof -
  have "card (fst ` set kvs) = length kvs" using d by (metis distinct_card length_map set_map)
  moreover have "card (fst ` set kvs') = length kvs'" using d' by (metis distinct_card length_map set_map)
  ultimately have "fst ` set kvs = fst ` set kvs'"
    using sub l by (intro card_subset_eq) simp_all
  then have s: "set (map fst kvs) = set (map fst kvs')" by simp
  show ?thesis
  proof (rule sorted_distinct_set_unique)
    show "sorted (sort (map fst kvs))" "sorted (sort (map fst kvs'))" by simp_all
    show "distinct (sort (map fst kvs))" using d by simp
    show "distinct (sort (map fst kvs'))" using d' by simp
    show "set (sort (map fst kvs)) = set (sort (map fst kvs'))" using s by simp
  qed
qed

lemma stringify_same:
  "same_up_to_key_order a b \<Longrightarrow> stringify q n a = stringify q n b"
proof (induction rule: same_up_to_key_order.induct)
  case (same_value a)
  show ?case by simp
next
  case (same_array xs ys)
  then have "map (stringify q n) xs = map (stringify q n) ys"
    by (induction rule: list_all2_induct) simp_all
  then show ?case by simp
next
  case (same_object kvs kvs')
  have sub: "fst ` set kvs \<subseteq> fst ` set kvs'"
  proof
    fix k assume "k \<in> fst ` set kvs"
    then obtain p where "p \<in> set kvs" "fst p = k" by auto
    with same_object(4) obtain v' where "(k, v') \<in> set kvs'" by blast
    then show "k \<in> fst ` set kvs'" by force
  qed
  have keys: "sort (map fst kvs) = sort (map fst kvs')"
    by (rule sorted_keys_eq[OF same_object(1,2,3) sub])
  have vals: "stringify q n (the (map_of kvs k)) = stringify q n (the (map_of kvs' k))"
    if "k \<in> fst ` set kvs" for k
  proof -
    from that obtain v where v: "(k, v) \<in> set kvs" by auto
    with same_object(1) have 1: "map_of kvs k = Some v" by simp
    from v same_object(4) obtain v' where v': "(k, v') \<in> set kvs'"
        "stringify q n v = stringify q n v'" by force
    with same_object(2) have "map_of kvs' k = Some v'" by simp
    with 1 v'(2) show ?thesis by simp
  qed
  have "map (\<lambda>(key, x). q key @ '':'' @ stringify q n x) (sorted_object kvs)
      = map (\<lambda>(key, x). q key @ '':'' @ stringify q n x) (sorted_object kvs')"
    unfolding sorted_object_def keys[symmetric] using vals by simp
  then show ?case by simp
qed

lemma join_Cons: "ss \<noteq> [] \<Longrightarrow> join sep (s # ss) = s @ sep @ join sep ss"
  by (cases ss) simp_all

lemma join_update:
  "i < length ss \<Longrightarrow> \<exists>a b. \<forall>s. join sep (ss[i := s]) = a @ s @ b"
proof (induction ss arbitrary: i)
  case Nil
  then show ?case by simp
next
  case (Cons x ss)
  show ?case
  proof (cases i)
    case 0
    show ?thesis
    proof (cases ss)
      case Nil
      with 0 have "\<forall>s. join sep ((x # ss)[i := s]) = [] @ s @ []" by simp
      then show ?thesis by blast
    next
      case (Cons y ys)
      with 0 have "\<forall>s. join sep ((x # ss)[i := s]) = [] @ s @ (sep @ join sep ss)" by simp
      then show ?thesis by blast
    qed
  next
    case (Suc j)
    with Cons.prems have j: "j < length ss" by simp
    from Cons.IH[OF j] obtain a b where ab: "\<forall>s. join sep (ss[j := s]) = a @ s @ b" by blast
    from j have "\<forall>s. ss[j := s] \<noteq> []" by auto
    then have "\<forall>s. join sep ((x # ss)[i := s]) = (x @ sep @ a) @ s @ b"
      using Suc ab by (simp add: join_Cons)
    then show ?thesis by blast
  qed
qed

lemma map_if_update:
  assumes "distinct ks" "j < length ks"
  shows "map (\<lambda>key. if key = ks ! j then A else F key) ks = (map F ks)[j := A]"
proof (rule nth_equalityI)
  show "length (map (\<lambda>key. if key = ks ! j then A else F key) ks) = length ((map F ks)[j := A])"
    by simp
next
  fix i assume "i < length (map (\<lambda>key. if key = ks ! j then A else F key) ks)"
  then have i: "i < length ks" by simp
  with assms have "ks ! i = ks ! j \<longleftrightarrow> i = j" by (simp add: nth_eq_iff_index_eq)
  with i show "map (\<lambda>key. if key = ks ! j then A else F key) ks ! i = (map F ks)[j := A] ! i"
    by (simp add: nth_list_update)
qed

lemma map_of_replace:
  "map_of (map (\<lambda>(key, x). if key = k then (key, f x) else (key, x)) kvs) key
     = (if key = k then map_option f (map_of kvs key) else map_of kvs key)"
  by (induction kvs) auto

lemma fst_replace:
  "map fst (map (\<lambda>(key, x). if key = k then (key, f x) else (key, x)) kvs) = map fst kvs"
  by (induction kvs) auto

lemma stringify_context:
  "valid_path p t \<Longrightarrow>
   \<exists>pre post. \<forall>v. stringify q n (replace_at p v t) = pre @ stringify q n v @ post"
proof (induction p t rule: valid_path.induct)
  case (1 t)
  have "\<forall>v. stringify q n (replace_at [] v t) = [] @ stringify q n v @ []" by simp
  then show ?case by blast
next
  case (2 i p xs)
  then have i: "i < length xs" and vp: "valid_path p (xs ! i)" by simp_all
  from 2(1)[OF vp] obtain pre post where
    IH: "\<forall>v. stringify q n (replace_at p v (xs ! i)) = pre @ stringify q n v @ post" by blast
  from i have "i < length (map (stringify q n) xs)" by simp
  from join_update[OF this, of "'',''"] obtain a b where
    ab: "\<forall>s. join '','' ((map (stringify q n) xs)[i := s]) = a @ s @ b" by blast
  have "\<forall>v. stringify q n (replace_at (Index i # p) v (JArr xs))
          = (''['' @ a @ pre) @ stringify q n v @ (post @ b @ '']'')"
    using i IH ab by (simp add: map_update)
  then show ?case by blast
next
  case (3 k p kvs)
  then obtain x where d: "distinct (map fst kvs)" and x: "map_of kvs k = Some x"
    and vp: "valid_path p x"
    by (auto split: option.splits)
  from 3(1)[OF x vp] obtain pre post where
    IH: "\<forall>v. stringify q n (replace_at p v x) = pre @ stringify q n v @ post" by blast
  let ?ks = "sort (map fst kvs)"
  from x have "k \<in> set ?ks" by (auto dest: map_of_SomeD simp: rev_image_eqI)
  then have "\<exists>j<length ?ks. ?ks ! j = k" by (simp only: in_set_conv_nth)
  then obtain j where j: "j < length ?ks" "?ks ! j = k" by blast
  have dk: "distinct ?ks" using d by simp
  let ?F = "\<lambda>key. q key @ '':'' @ stringify q n (the (map_of kvs key))"
  have L: "map (\<lambda>(key, y). q key @ '':'' @ stringify q n y)
             (sorted_object (map (\<lambda>(key, y). if key = k then (key, replace_at p v y) else (key, y)) kvs))
           = (map ?F ?ks)[j := q k @ '':'' @ stringify q n (replace_at p v x)]" for v
  proof -
    let ?kvs' = "map (\<lambda>(key, y). if key = k then (key, replace_at p v y) else (key, y)) kvs"
    have so: "sorted_object ?kvs' = map (\<lambda>key. (key, the (map_of ?kvs' key))) ?ks"
      unfolding sorted_object_def fst_replace ..
    have "map (\<lambda>(key, y). q key @ '':'' @ stringify q n y) (sorted_object ?kvs')
        = map (\<lambda>key. if key = ?ks ! j then q k @ '':'' @ stringify q n (replace_at p v x) else ?F key) ?ks"
      unfolding so by (simp add: map_of_replace x j(2))
    also have "\<dots> = (map ?F ?ks)[j := q k @ '':'' @ stringify q n (replace_at p v x)]"
      by (rule map_if_update[OF dk j(1)])
    finally show ?thesis .
  qed
  from j(1) have "j < length (map ?F ?ks)" by simp
  from join_update[OF this, of "'',''"] obtain a b where
    ab: "\<forall>s. join '','' ((map ?F ?ks)[j := s]) = a @ s @ b" by blast
  have "\<forall>v. stringify q n (replace_at (Key k # p) v (JObj kvs))
          = (''{'' @ a @ q k @ '':'' @ pre) @ stringify q n v @ (post @ b @ ''}'')"
    using L IH ab by simp
  then show ?case by blast
qed simp_all

lemma stringify_replace_eq:
  assumes "valid_path p t"
  shows "stringify q n (replace_at p v t) = stringify q n (replace_at p v' t)
           \<longleftrightarrow> stringify q n v = stringify q n v'"
proof -
  from stringify_context[OF assms, of q n] obtain pre post where
    "\<forall>v. stringify q n (replace_at p v t) = pre @ stringify q n v @ post" by blast
  then show ?thesis by simp
qed

lemma number_text_head:
  assumes "platform_rendering q n D" "x \<in> D"
  shows "\<exists>c r. n x = c # r \<and> c \<in> set ''-0123456789''"
proof -
  from assms have "n x \<noteq> []" "hd (n x) \<in> set ''-0123456789''"
    by (auto simp: platform_rendering_def)
  then show ?thesis by (cases "n x") auto
qed

lemma quote_text_head:
  assumes "platform_rendering q n D"
  shows "\<exists>r. q s = CHR 0x22 # r"
proof -
  from assms have "take 1 (q s) = [CHR 0x22]" by (simp add: platform_rendering_def)
  then show ?thesis by (cases "q s") auto
qed

lemma scalar_kinds:
  assumes "scalar_value v"
  obtains "renders_as_null v" | b where "v = JBool b" | x where "v = JNum (Finite x)"
    | s where "v = JStr s"
proof (cases v)
  case (JNum m)
  then show ?thesis using that by (cases m) (auto simp: renders_as_null_def)
qed (use assms that in \<open>auto simp: renders_as_null_def\<close>)

lemma null_text: "renders_as_null v \<Longrightarrow> stringify q n v = ''null''"
  by (auto simp: renders_as_null_def)

lemma scalar_text_differs:
  assumes pr: "platform_rendering q n D"
      and sv: "scalar_value v" "scalar_value v'" and nv: "number_in D v" "number_in D v'"
      and ne: "v \<noteq> v'" and nn: "\<not> (renders_as_null v \<and> renders_as_null v')"
  shows "stringify q n v \<noteq> stringify q n v'"
proof -
  have qq: "q s = q s' \<Longrightarrow> s = s'" for s s'
    using pr by (auto simp: platform_rendering_def dest: injD)
  have ni: "x \<in> D \<Longrightarrow> y \<in> D \<Longrightarrow> n x = n y \<Longrightarrow> x = y" for x y
    using pr by (auto simp: platform_rendering_def dest: inj_onD)
  have nh: "x \<in> D \<Longrightarrow> \<exists>c r. n x = c # r \<and> c \<in> set ''-0123456789''" for x
    by (rule number_text_head[OF pr])
  have qh: "\<exists>r. q s = CHR 0x22 # r" for s
    by (rule quote_text_head[OF pr])
  from sv(1) show ?thesis
  proof (cases v rule: scalar_kinds)
    case 1
    note v1 = this
    from sv(2) show ?thesis
    proof (cases v' rule: scalar_kinds)
      case 1
      with v1 nn show ?thesis by simp
    next
      case (2 b)
      with v1 show ?thesis by (simp add: null_text)
    next
      case (3 x)
      with nv(2) nh[of x] v1 show ?thesis by (auto simp: null_text)
    next
      case (4 s)
      with qh[of s] v1 show ?thesis by (auto simp: null_text)
    qed
  next
    case (2 b)
    note v2 = this
    from sv(2) show ?thesis
    proof (cases v' rule: scalar_kinds)
      case 1
      with v2 show ?thesis by (simp add: null_text)
    next
      case (2 b')
      with v2 ne show ?thesis by auto
    next
      case (3 x)
      with nv(2) nh[of x] v2 show ?thesis by auto
    next
      case (4 s)
      with qh[of s] v2 show ?thesis by auto
    qed
  next
    case (3 x)
    note v3 = this
    with nv(1) have xD: "x \<in> D" by simp
    from sv(2) show ?thesis
    proof (cases v' rule: scalar_kinds)
      case 1
      with nh[OF xD] v3 show ?thesis by (auto simp: null_text)
    next
      case (2 b)
      with nh[OF xD] v3 show ?thesis by auto
    next
      case (3 y)
      with nv(2) have "y \<in> D" by simp
      with ni[OF xD this] v3 3 ne show ?thesis by auto
    next
      case (4 s)
      with nh[OF xD] qh[of s] v3 show ?thesis by auto
    qed
  next
    case (4 s)
    note v4 = this
    from sv(2) show ?thesis
    proof (cases v' rule: scalar_kinds)
      case 1
      with qh[of s] v4 show ?thesis by (auto simp: null_text)
    next
      case (2 b)
      with qh[of s] v4 show ?thesis by auto
    next
      case (3 x)
      with nv(2) nh[of x] qh[of s] v4 show ?thesis by auto
    next
      case (4 s')
      with qq[of s s'] v4 ne show ?thesis by auto
    qed
  qed
qed

lemma join_take: "\<exists>rest. join sep ss = join sep (take k ss) @ rest"
proof (induction ss arbitrary: k)
  case Nil
  then show ?case by simp
next
  case (Cons s ss)
  show ?case
  proof (cases k)
    case 0
    then show ?thesis by simp
  next
    case (Suc j)
    from Cons.IH[of j] obtain rest where r: "join sep ss = join sep (take j ss) @ rest" by blast
    show ?thesis
    proof (cases "take j ss = []")
      case True
      then have "join sep (s # ss) = join sep (take k (s # ss)) @ (if ss = [] then [] else sep @ join sep ss)"
        using Suc by (cases ss) simp_all
      then show ?thesis by blast
    next
      case False
      then have "ss \<noteq> []" by auto
      with False r Suc have "join sep (s # ss) = join sep (take k (s # ss)) @ rest"
        by (simp add: join_Cons)
      then show ?thesis by blast
    qed
  qed
qed

lemma example_tables_same:
  "same_up_to_key_order (example_tables v) (example_tables_reordered v)"
  unfolding example_tables_def example_tables_reordered_def
  apply (rule same_array, simp)
  apply (rule same_object, simp, simp, simp)
  apply (simp, intro conjI)
   apply (rule same_value)
  apply (rule same_array, simp)
  apply (rule same_array, simp)
  apply (rule same_object, simp, simp, simp)
  apply (simp, intro conjI)
   apply (rule same_value)
  apply (rule same_value)
  done

subsection \<open>Claim about generateCacheKey\<close>

text \<open>
  Claim C5, as stated, fails in its last part: \<open>JSON.stringify\<close> writes \<open>NaN\<close> (and
  the infinities) as \<open>null\<close>, so changing a cell value from \<open>null\<close> to \<open>NaN\<close>
  leaves the serialised text, and with it the digest, unchanged, whatever the hash
  function.
\<close>

theorem generateCacheKey_NaN_counterexample:
  "JNum NaN \<noteq> JNull \<and>
   valid_path [Index 0, Key ''data'', Index 0, Index 0, Key ''value''] (example_tables JNull) \<and>
   replace_at [Index 0, Key ''data'', Index 0, Index 0, Key ''value''] (JNum NaN) (example_tables JNull)
     = example_tables (JNum NaN) \<and>
   (\<forall>sha256 quote number_to_string.
      generateCacheKey sha256 quote number_to_string (example_tables (JNum NaN))
        = generateCacheKey sha256 quote number_to_string (example_tables JNull))"
  by (simp add: example_tables_def generateCacheKey_def sorted_object_def)

text \<open>
  Claim C5, amended. Two values that hold the same records up to the order of object
  keys, at every nesting level, get the same digest. Arrays are not reordered: the
  serialisation of the first \<open>k\<close> elements of an array starts the serialisation of
  the array, and exchanging two elements can change the text. Replacing the value at
  any position changes the serialised text exactly when the old and the new value have
  different texts. In particular, changing a cell value to a different scalar changes
  the text that is hashed, unless both values are serialised as \<open>null\<close> (\<open>null\<close>
  itself, \<open>NaN\<close> and the infinities), in which case the digest is unchanged; and
  with the text the digest changes, unless SHA-256 collides on the two texts.
\<close>

theorem generateCacheKey_canonical:
  "(same_up_to_key_order a b \<longrightarrow>
      generateCacheKey sha256 quote number_to_string a
        = generateCacheKey sha256 quote number_to_string b) \<and>
   (\<exists>rest. stringify quote number_to_string (JArr xs)
        = ''['' @ join '','' (map (stringify quote number_to_string) (take k xs)) @ rest) \<and>
   stringify quote number_to_string (JArr [JNull, JBool True])
     \<noteq> stringify quote number_to_string (JArr [JBool True, JNull]) \<and>
   (valid_path p t \<longrightarrow>
      (stringify quote number_to_string (replace_at p v t)
         = stringify quote number_to_string (replace_at p v' t))
      = (stringify quote number_to_string v = stringify quote number_to_string v')) \<and>
   (platform_rendering quote number_to_string D \<and> valid_path p t \<and>
    scalar_value v \<and> scalar_value v' \<and> number_in D v \<and> number_in D v' \<and>
    v \<noteq> v' \<and> \<not> (renders_as_null v \<and> renders_as_null v') \<longrightarrow>
      stringify quote number_to_string (replace_at p v t)
        \<noteq> stringify quote number_to_string (replace_at p v' t) \<and>
      (inj_on sha256 {stringify quote number_to_string (replace_at p v t),
                      stringify quote number_to_string (replace_at p v' t)} \<longrightarrow>
         generateCacheKey sha256 quote number_to_string (replace_at p v t)
           \<noteq> generateCacheKey sha256 quote number_to_string (replace_at p v' t))) \<and>
   (valid_path p t \<and> renders_as_null v \<and> renders_as_null v' \<longrightarrow>
      generateCacheKey sha256 quote number_to_string (replace_at p v t)
        = generateCacheKey sha256 quote number_to_string (replace_at p v' t))"
proof (intro conjI impI)
  assume "same_up_to_key_order a b"
  then show "generateCacheKey sha256 quote number_to_string a
        = generateCacheKey sha256 quote number_to_string b"
    by (simp add: generateCacheKey_def stringify_same)
next
  from join_take[of "'',''" "map (stringify quote number_to_string) xs" k]
  obtain rest where "join '','' (map (stringify quote number_to_string) xs)
      = join '','' (map (stringify quote number_to_string) (take k xs)) @ rest"
    by (auto simp: take_map)
  then have "stringify quote number_to_string (JArr xs)
        = ''['' @ join '','' (map (stringify quote number_to_string) (take k xs)) @ (rest @ '']'')"
    by simp
  then show "\<exists>rest. stringify quote number_to_string (JArr xs)
        = ''['' @ join '','' (map (stringify quote number_to_string) (take k xs)) @ rest"
    by blast
next
  show "stringify quote number_to_string (JArr [JNull, JBool True])
     \<noteq> stringify quote number_to_string (JArr [JBool True, JNull])" by simp
next
  assume "valid_path p t"
  then show "(stringify quote number_to_string (replace_at p v t)
         = stringify quote number_to_string (replace_at p v' t))
      = (stringify quote number_to_string v = stringify quote number_to_string v')"
    by (rule stringify_replace_eq)
next
  assume h: "platform_rendering quote number_to_string D \<and> valid_path p t \<and>
    scalar_value v \<and> scalar_value v' \<and> number_in D v \<and> number_in D v' \<and>
    v \<noteq> v' \<and> \<not> (renders_as_null v \<and> renders_as_null v')"
  then have "stringify quote number_to_string v \<noteq> stringify quote number_to_string v'"
    by (intro scalar_text_differs[of quote number_to_string D]) simp_all
  with h show ne: "stringify quote number_to_string (replace_at p v t)
        \<noteq> stringify quote number_to_string (replace_at p v' t)"
    by (simp add: stringify_replace_eq)
  assume "inj_on sha256 {stringify quote number_to_string (replace_at p v t),
                      stringify quote number_to_string (replace_at p v' t)}"
  with ne show "generateCacheKey sha256 quote number_to_string (replace_at p v t)
           \<noteq> generateCacheKey sha256 quote number_to_string (replace_at p v' t)"
    unfolding generateCacheKey_def by (auto dest: inj_onD)
next
  assume h: "valid_path p t \<and> renders_as_null v \<and> renders_as_null v'"
  then have "stringify quote number_to_string v = stringify quote number_to_string v'"
    by (simp add: null_text)
  with h have "stringify quote number_to_string (replace_at p v t)
      = stringify quote number_to_string (replace_at p v' t)"
    by (simp add: stringify_replace_eq)
  then show "generateCacheKey sha256 quote number_to_string (replace_at p v t)
        = generateCacheKey sha256 quote number_to_string (replace_at p v' t)"
    by (simp add: generateCacheKey_def)
qed

text \<open>Witness for C5: the one-cell table sequence with its keys in two orders, and
  the cell value changed from 5 to 2.\<close>

theorem generateCacheKey_canonical_witness:
  "same_up_to_key_order (example_tables (JNum (Finite 5))) (example_tables_reordered (JNum (Finite 5))) \<and>
   generateCacheKey example_sha256 example_quote example_number_to_string
       (example_tables (JNum (Finite 5)))
     = generateCacheKey example_sha256 example_quote example_number_to_string
       (example_tables_reordered (JNum (Finite 5))) \<and>
   platform_rendering example_quote example_number_to_string {5, 2} \<and>
   valid_path [Index 0, Key ''data'', Index 0, Index 0, Key ''value''] (example_tables JNull) \<and>
   scalar_value (JNum (Finite 5)) \<and> scalar_value (JNum (Finite 2)) \<and>
   number_in {5, 2} (JNum (Finite 5)) \<and> number_in {5, 2} (JNum (Finite 2)) \<and>
   JNum (Finite 5) \<noteq> JNum (Finite 2) \<and>
   \<not> (renders_as_null (JNum (Finite 5)) \<and> renders_as_null (JNum (Finite 2))) \<and>
   stringify example_quote example_number_to_string
       (replace_at [Index 0, Key ''data'', Index 0, Index 0, Key ''value'']
          (JNum (Finite 5)) (example_tables JNull))
     \<noteq> stringify example_quote example_number_to_string
       (replace_at [Index 0, Key ''data'', Index 0, Index 0, Key ''value'']
          (JNum (Finite 2)) (example_tables JNull)) \<and>
   inj_on example_sha256
     {stringify example_quote example_number_to_string
        (replace_at [Index 0, Key ''data'', Index 0, Index 0, Key ''value'']
           (JNum (Finite 5)) (example_tables JNull)),
      stringify example_quote example_number_to_string
        (replace_at [Index 0, Key ''data'', Index 0, Index 0, Key ''value'']
           (JNum (Finite 2)) (example_tables JNull))} \<and>
   generateCacheKey example_sha256 example_quote example_number_to_string
       (replace_at [Index 0, Key ''data'', Index 0, Index 0, Key ''value'']
          (JNum (Finite 5)) (example_tables JNull))
     \<noteq> generateCacheKey example_sha256 example_quote example_number_to_string
       (replace_at [Index 0, Key ''data'', Index 0, Index 0, Key ''value'']
          (JNum (Finite 2)) (example_tables JNull))"
proof -
  let ?p = "[Index 0, Key ''data'', Index 0, Index 0, Key ''value'']"
  let ?S = "{stringify example_quote example_number_to_string
        (replace_at ?p (JNum (Finite 5)) (example_tables JNull)),
      stringify example_quote example_number_to_string
        (replace_at ?p (JNum (Finite 2)) (example_tables JNull))}"
  have s: "same_up_to_key_order (example_tables (JNum (Finite 5)))
             (example_tables_reordered (JNum (Finite 5)))"
    by (rule example_tables_same)
  have pr: "platform_rendering example_quote example_number_to_string {5, 2}"
    by (simp add: platform_rendering_def inj_def example_quote_def example_number_to_string_def)
  have vp: "valid_path ?p (example_tables JNull)"
    by (simp add: example_tables_def)
  have sc: "scalar_value (JNum (Finite 5))" "scalar_value (JNum (Finite 2))"
    "number_in {5, 2} (JNum (Finite 5))" "number_in {5, 2} (JNum (Finite 2))"
    "JNum (Finite 5) \<noteq> JNum (Finite 2)"
    "\<not> (renders_as_null (JNum (Finite 5)) \<and> renders_as_null (JNum (Finite 2)))"
    by (simp_all add: renders_as_null_def)
  have inj: "inj_on example_sha256 ?S"
    by (simp add: inj_on_def example_sha256_def)
  from generateCacheKey_canonical[of "example_tables (JNum (Finite 5))"
      "example_tables_reordered (JNum (Finite 5))" example_sha256 example_quote
      example_number_to_string "[]" 0 ?p "example_tables JNull" "JNum (Finite 5)"
      "JNum (Finite 2)" "{5, 2}"]
    s pr vp sc inj
  show ?thesis by blast
qed

section \<open>HistoryStore on JSON snapshots\<close>

text \<open>
  \<open>JSON.stringify(value)\<close> without a replacer, as \<open>setState\<close> calls it: the
  properties of an object are written in their enumeration order.
\<close>

fun JSON_stringify :: "(string \<Rightarrow> string) \<Rightarrow> (real \<Rightarrow> string) \<Rightarrow> json \<Rightarrow> string" where
  "JSON_stringify quote number_to_string JNull = ''null''"
| "JSON_stringify quote number_to_string (JBool b) = (if b then ''true'' else ''false'')"
| "JSON_stringify quote number_to_string (JNum (Finite x)) = number_to_string x"
| "JSON_stringify quote number_to_string (JNum n) = ''null''"
| "JSON_stringify quote number_to_string (JStr s) = quote s"
| "JSON_stringify quote number_to_string (JArr xs) =
     ''['' @ join '','' (map (JSON_stringify quote number_to_string) xs) @ '']''"
| "JSON_stringify quote number_to_string (JObj kvs) =
     ''{'' @ join '',''
        (map (\<lambda>(key, x). quote key @ '':'' @ JSON_stringify quote number_to_string x) kvs) @ ''}''"

text \<open>A graph snapshot with no nodes and no links, with its two properties in either
  order.\<close>

definition example_snapshot :: json where
  "example_snapshot = JObj [(''nodes'', JArr []), (''links'', JArr [])]"

definition example_snapshot_reordered :: json where
  "example_snapshot_reordered = JObj [(''links'', JArr []), (''nodes'', JArr [])]"

subsection \<open>Claim about setting an equal value\<close>

text \<open>
  Claim C3, as stated, fails: \<open>setState\<close> compares the \<open>JSON.stringify\<close> texts, in
  which the order of an object's keys shows. A candidate that is deep-equal to the
  current snapshot but lists its keys in another order has a different text and is
  appended as a new snapshot.
\<close>

theorem set_deep_equal_counterexample:
  "same_up_to_key_order example_snapshot example_snapshot_reordered \<and>
   currentState (useHistoryState example_snapshot) = example_snapshot \<and>
   history (setState (JSON_stringify example_quote example_number_to_string)
              (Direct example_snapshot_reordered) (useHistoryState example_snapshot))
     = [example_snapshot, example_snapshot_reordered] \<and>
   currentIndex (setState (JSON_stringify example_quote example_number_to_string)
              (Direct example_snapshot_reordered) (useHistoryState example_snapshot)) = 1 \<and>
   canUndo (setState (JSON_stringify example_quote example_number_to_string)
              (Direct example_snapshot_reordered) (useHistoryState example_snapshot)) \<and>
   \<not> canUndo (useHistoryState example_snapshot)"
proof -
  have s: "same_up_to_key_order example_snapshot example_snapshot_reordered"
    unfolding example_snapshot_def example_snapshot_reordered_def
    by (rule same_object) (auto intro: same_value)
  have t: "JSON_stringify example_quote example_number_to_string example_snapshot
      \<noteq> JSON_stringify example_quote example_number_to_string example_snapshot_reordered"
    by (simp add: example_snapshot_def example_snapshot_reordered_def example_quote_def)
  have c: "currentState (useHistoryState example_snapshot) = example_snapshot"
    by (simp add: currentState_def useHistoryState_def)
  from t have h: "setState (JSON_stringify example_quote example_number_to_string)
              (Direct example_snapshot_reordered) (useHistoryState example_snapshot)
     = \<lparr>history = [example_snapshot, example_snapshot_reordered], currentIndex = 1\<rparr>"
    by (simp add: setState_def c Let_def MAX_HISTORY_SIZE_def) (simp add: useHistoryState_def)
  show ?thesis
    unfolding h using s c by (simp add: canUndo_def useHistoryState_def)
qed

text \<open>
  Claim C3, amended. A set whose candidate, given directly or computed by a derivation
  function, has the same \<open>JSON.stringify\<close> text as the current snapshot returns the
  store unchanged, so the snapshot count, cursor, current value, canUndo and canRedo are
  unchanged. That is so for a candidate identical to the current snapshot, key order
  included; and setting the same value twice gives the same store as setting it once.
\<close>

theorem set_same_text_is_noop:
  "(js (candidate a (currentState h)) = js (currentState h) \<longrightarrow> setState js a h = h) \<and>
   (v = currentState h \<longrightarrow> setState js (Direct v) h = h) \<and>
   (f (currentState h) = currentState h \<longrightarrow> setState js (Updater f) h = h) \<and>
   setState js (Direct v) (setState js (Direct v) h) = setState js (Direct v) h"
proof (intro conjI impI)
  assume "js (candidate a (currentState h)) = js (currentState h)"
  then show "setState js a h = h"
    using setState_candidate[of js a h] by (simp add: setState_same_text)
next
  assume "v = currentState h"
  then show "setState js (Direct v) h = h" by (simp add: setState_def)
next
  assume "f (currentState h) = currentState h"
  then show "setState js (Updater f) h = h" by (simp add: setState_def)
next
  show "setState js (Direct v) (setState js (Direct v) h) = setState js (Direct v) h"
    by (rule setState_twice)
qed

text \<open>Witness for C3: a store with three snapshots and the cursor in the middle, and a
  text function under which the candidate and the current snapshot agree.\<close>

theorem set_same_text_is_noop_witness:
  "take 1 (candidate (Direct ''bz'') (currentState \<lparr>history = [''a'', ''b'', ''c''], currentIndex = 1\<rparr>))
     = take 1 (currentState \<lparr>history = [''a'', ''b'', ''c''], currentIndex = 1\<rparr>) \<and>
   setState (take 1) (Direct ''bz'') \<lparr>history = [''a'', ''b'', ''c''], currentIndex = 1\<rparr>
     = \<lparr>history = [''a'', ''b'', ''c''], currentIndex = 1\<rparr> \<and>
   ''b'' = currentState \<lparr>history = [''a'', ''b'', ''c''], currentIndex = 1\<rparr> \<and>
   setState (take 1) (Direct ''b'') \<lparr>history = [''a'', ''b'', ''c''], currentIndex = 1\<rparr>
     = \<lparr>history = [''a'', ''b'', ''c''], currentIndex = 1\<rparr> \<and>
   (\<lambda>s. take 1 s) (currentState \<lparr>history = [''a'', ''b'', ''c''], currentIndex = 1\<rparr>)
     = currentState \<lparr>history = [''a'', ''b'', ''c''], currentIndex = 1\<rparr> \<and>
   setState (take 1) (Updater (\<lambda>s. take 1 s)) \<lparr>history = [''a'', ''b'', ''c''], currentIndex = 1\<rparr>
     = \<lparr>history = [''a'', ''b'', ''c''], currentIndex = 1\<rparr> \<and>
   canUndo (setState (take 1) (Direct ''bz'') \<lparr>history = [''a'', ''b'', ''c''], currentIndex = 1\<rparr>) \<and>
   canRedo (setState (take 1) (Direct ''bz'') \<lparr>history = [''a'', ''b'', ''c''], currentIndex = 1\<rparr>)"
proof -
  let ?h = "\<lparr>history = [''a'', ''b'', ''c''], currentIndex = 1\<rparr>"
  have c: "currentState ?h = ''b''" by (simp add: currentState_def)
  have t: "take 1 (candidate (Direct ''bz'') (currentState ?h)) = take 1 (currentState ?h)"
    by (simp add: candidate_def currentState_def)
  have h2: "''b'' = currentState ?h" by (simp add: currentState_def)
  have t3: "(\<lambda>s. take 1 s) (currentState ?h) = currentState ?h" by (simp add: currentState_def)
  from set_same_text_is_noop[of "take 1" "Direct ''bz''" ?h "''b''" "\<lambda>s. take 1 s"] t h2 t3
  have 1: "setState (take 1) (Direct ''bz'') ?h = ?h"
    and 2: "setState (take 1) (Direct ''b'') ?h = ?h"
    and 3: "setState (take 1) (Updater (\<lambda>s. take 1 s)) ?h = ?h" by blast+
  show ?thesis
    unfolding 1 2 3 using t h2 t3 by (simp add: canUndo_def canRedo_def)
qed

end
